theory Spec2Isabelle
  imports Complex_Main "HOL-Library.Sublist" "HOL-Library.Log_Nat"
begin

section \<open>Shared vocabulary\<close>

text \<open>
  Time is counted in nanoseconds, as Go's \<^verbatim>\<open>time.Duration\<close> does; an instant is
  the number of nanoseconds since a fixed origin.
\<close>

type_synonym Time = int
type_synonym Duration = int

definition Second :: Duration where
  "Second = 1000000000"

text \<open>
  Go errors. The sentinel values of the repository are constructors of their own, since
  the code compares them by identity; \<^verbatim>\<open>fmt.Errorf("prefix: %w", err)\<close> is
  \<open>Wrapf\<close>; \<open>errorString\<close> is an error that is only its text, as
  \<^verbatim>\<open>errors.New\<close> makes it, and also stands for an error that comes out of the
  database driver; the last three are the classes of token errors.
\<close>

datatype error =
    ErrUserNotFound
  | ErrUserAlreadyExists
  | ErrInvalidCredentials
  | ErrUserExists
  | DeadlineExceeded
  | errorString string
  | Wrapf string error
  | MalformedToken
  | BadSignature
  | Expired

fun Error :: "error \<Rightarrow> string" where
  "Error ErrUserNotFound = ''user not found''"
| "Error ErrUserAlreadyExists = ''user already exists''"
| "Error ErrInvalidCredentials = ''invalid credentials''"
| "Error ErrUserExists = ''user already exists''"
| "Error DeadlineExceeded = ''context deadline exceeded''"
| "Error (errorString s) = s"
| "Error (Wrapf p e) = p @ '': '' @ Error e"
| "Error MalformedToken = ''token is malformed''"
| "Error BadSignature = ''token signature is invalid''"
| "Error Expired = ''token is expired''"

section \<open>HTTP requests and responses\<close>

text \<open>
  \<^verbatim>\<open>http.Header\<close> maps a header name to the list of its values.
  \<^verbatim>\<open>Header.Get\<close> returns the first value of the name, or the empty string
  when there is none; \<^verbatim>\<open>Header.Set\<close> replaces the values by one. (net/http
  brings names to a canonical spelling on both sides; the map below is keyed by the
  spelling the code uses.)
\<close>

type_synonym Header = "string \<rightharpoonup> string list"

definition Header_Get :: "Header \<Rightarrow> string \<Rightarrow> string" where
  "Header_Get h k = (case h k of None \<Rightarrow> [] | Some [] \<Rightarrow> [] | Some (v # _) \<Rightarrow> v)"

definition Header_Set :: "Header \<Rightarrow> string \<Rightarrow> string \<Rightarrow> Header" where
  "Header_Set h k v = h(k \<mapsto> [v])"

record Request =
  Method :: string
  Path :: string
  ReqHeader :: Header
  RemoteAddr :: string

text \<open>A record of the structured log: level, message, and the fields given to it.\<close>

datatype level = WarnLevel | ErrorLevel | InfoLevel

record LogRecord =
  lvl :: level
  msg :: string
  logFields :: "(string \<times> string) list"

text \<open>The JSON payloads of \<^verbatim>\<open>internal/models\<close> and of the health handler.\<close>

record HealthResponse =
  Status :: string
  Database :: string

record ErrorResponse =
  ErrorField :: string
  Message :: string

record User =
  ID :: int
  Email :: string
  PasswordHash :: string

text \<open>
  Modelled from the spec: the wire format of tokens belongs to the token library,
  which is not among the sources. The spec calls a token an opaque signed string that
  encodes the claims, with a signature that only the secret verifies. So a token string
  is taken apart symbolically: it is either malformed or the compact form of a header,
  a claim set and a signature, and a signature is the term that records the algorithm,
  the key and the header and claims it was made over (see the section on identity
  tokens). The numbers this program writes into JSON are integers, so a JSON number is
  an integer here.
\<close>

datatype json = JNumber int | JString string | JBool bool | JNull

datatype signature =
    Sig string string "(string \<times> json) list" "(string \<times> json) list"
  | Junk string

datatype token_string =
    Compact "(string \<times> json) list" "(string \<times> json) list" signature
  | Malformed string

text \<open>
  What a handler has written to its \<^verbatim>\<open>http.ResponseWriter\<close>: the header map,
  the status code once \<^verbatim>\<open>WriteHeader\<close> has been called, and the body as the
  sequence of writes. A value written through \<^verbatim>\<open>json.NewEncoder(w).Encode\<close> is
  kept as the value (the encoder writes its JSON text and a newline).
\<close>

datatype chunk =
    Raw string
  | EncodedHealth HealthResponse
  | EncodedError ErrorResponse
  | EncodedAuth token_string User

record ResponseWriter =
  header :: Header
  statusCode :: "nat option"
  body :: "chunk list"

definition newResponseWriter :: ResponseWriter where
  "newResponseWriter = \<lparr>header = Map.empty, statusCode = None, body = []\<rparr>"

definition SetHeader :: "string \<Rightarrow> string \<Rightarrow> ResponseWriter \<Rightarrow> ResponseWriter" where
  "SetHeader k v w = w\<lparr>header := Header_Set (header w) k v\<rparr>"

definition WriteHeader :: "nat \<Rightarrow> ResponseWriter \<Rightarrow> ResponseWriter" where
  "WriteHeader code w = (if statusCode w = None then w\<lparr>statusCode := Some code\<rparr> else w)"

definition Write :: "chunk \<Rightarrow> ResponseWriter \<Rightarrow> ResponseWriter" where
  "Write c w = (WriteHeader 200 w)\<lparr>body := body w @ [c]\<rparr>"

definition StatusOK :: nat where "StatusOK = 200"
definition StatusCreated :: nat where "StatusCreated = 201"
definition StatusBadRequest :: nat where "StatusBadRequest = 400"
definition StatusUnauthorized :: nat where "StatusUnauthorized = 401"
definition StatusConflict :: nat where "StatusConflict = 409"
definition StatusTooManyRequests :: nat where "StatusTooManyRequests = 429"
definition StatusInternalServerError :: nat where "StatusInternalServerError = 500"
definition StatusServiceUnavailable :: nat where "StatusServiceUnavailable = 503"

section \<open>Client identity (middleware, getClientIP)\<close>

definition getClientIP :: "Request \<Rightarrow> string" where
  "getClientIP r =
     (let xff = Header_Get (ReqHeader r) ''X-Forwarded-For'' in
      if xff \<noteq> [] then xff
      else let xri = Header_Get (ReqHeader r) ''X-Real-IP'' in
        if xri \<noteq> [] then xri
        else RemoteAddr r)"

section \<open>Health and readiness handlers\<close>

text \<open>
  \<^verbatim>\<open>DB.Health\<close> pings the database under a two-second timeout and wraps the
  error of the ping. The outcome of the ping (\<open>None\<close> for success) is an input of
  the model.
\<close>

definition Health :: "error option \<Rightarrow> error option" where
  "Health ping =
     (case ping of
        Some err \<Rightarrow> Some (Wrapf ''database health check failed'' err)
      | None \<Rightarrow> None)"

text \<open>
  \<^verbatim>\<open>Healthz\<close> and \<^verbatim>\<open>Ready\<close>: the state they act on is the response writer
  and the logs.
\<close>

definition Healthz ::
  "error option \<Rightarrow> ResponseWriter \<times> LogRecord list \<Rightarrow> ResponseWriter \<times> LogRecord list" where
  "Healthz ping s =
     (let (w, logs) = s;
          response = \<lparr>Status = ''ok'', Database = ''ok''\<rparr>;
          code = StatusOK;
          (response, code, logs) =
            (case Health ping of
               Some err \<Rightarrow>
                 (response\<lparr>Database := ''unhealthy'', Status := ''unhealthy''\<rparr>,
                  StatusServiceUnavailable,
                  logs @ [\<lparr>lvl = ErrorLevel, msg = ''database health check failed'',
                           logFields = [(''error'', Error err)]\<rparr>])
             | None \<Rightarrow> (response, code, logs));
          w = SetHeader ''Content-Type'' ''application/json'' w;
          w = WriteHeader code w;
          w = Write (EncodedHealth response) w
      in (w, logs))"

definition Ready ::
  "error option \<Rightarrow> ResponseWriter \<times> LogRecord list \<Rightarrow> ResponseWriter \<times> LogRecord list" where
  "Ready ping s = Healthz ping s"

section \<open>Startup: the database connection (database.New, pingWithRetry)\<close>

text \<open>
  The database is an input of the model: \<open>ping i t\<close> is what the call of
  \<^verbatim>\<open>PingContext\<close> in iteration \<open>i\<close>, begun at instant \<open>t\<close>, does: the time it
  takes and its error (\<open>None\<close> for success). The context carries a deadline. The
  \<^verbatim>\<open>select\<close> of the loop waits for the context and for a timer of \<open>i + 1\<close>
  seconds: the context wins when its deadline comes first, the timer when it fires
  first, and \<open>tie i\<close> says whether the timer is taken when both come at the same
  instant. The trace lists what happened: each probe with its number, the instant it
  began and whether it succeeded, and each wait with its length and whether it ran to
  its end.
\<close>

datatype event =
    Probe nat Time bool
  | Backoff Duration bool

type_synonym pinger = "nat \<Rightarrow> Time \<Rightarrow> Duration \<times> error option"

fun pingLoop ::
  "Time \<Rightarrow> pinger \<Rightarrow> (nat \<Rightarrow> bool) \<Rightarrow> nat \<Rightarrow> nat \<Rightarrow> Time \<Rightarrow> error option
     \<Rightarrow> error option \<times> Time \<times> event list" where
  "pingLoop deadline ping tie 0 i now err = (err, now, [])"
| "pingLoop deadline ping tie (Suc k) i now err =
     (let (took, err) = ping i now;
          done = now + took
      in case err of
           None \<Rightarrow> (None, done, [Probe (i + 1) now True])
         | Some e \<Rightarrow>
             (let wake = done + Second * int (i + 1) in
              if deadline < wake \<or> (deadline = wake \<and> \<not> tie i)
              then (Some DeadlineExceeded, max done deadline,
                    [Probe (i + 1) now False, Backoff (Second * int (i + 1)) False])
              else (let (r, t, evs) = pingLoop deadline ping tie k (i + 1) wake (Some e)
                    in (r, t, Probe (i + 1) now False # Backoff (Second * int (i + 1)) True # evs))))"

text \<open>
  \<^verbatim>\<open>for i := 0; i < maxRetries; i++\<close>: the loop runs \<open>maxRetries\<close> times at most,
  from \<open>i = 0\<close>, with \<^verbatim>\<open>err\<close> nil at first.
\<close>

definition pingWithRetry ::
  "Time \<Rightarrow> pinger \<Rightarrow> (nat \<Rightarrow> bool) \<Rightarrow> int \<Rightarrow> Time \<Rightarrow> error option \<times> Time \<times> event list" where
  "pingWithRetry deadline ping tie maxRetries now =
     pingLoop deadline ping tie (nat maxRetries) 0 now None"

text \<open>
  \<^verbatim>\<open>database.New\<close>: \<open>openErr\<close> is the outcome of \<^verbatim>\<open>sql.Open\<close>, \<open>t0\<close> the
  instant at which the context with its ten-second timeout is made. On success the
  handle is returned; it is the unit value here, since nothing of it is looked at.
\<close>

definition New :: "error option \<Rightarrow> Time \<Rightarrow> pinger \<Rightarrow> (nat \<Rightarrow> bool) \<Rightarrow> error + unit" where
  "New openErr t0 ping tie =
     (case openErr of
        Some err \<Rightarrow> Inl (Wrapf ''failed to open database'' err)
      | None \<Rightarrow>
          (let deadline = t0 + 10 * Second in
           case pingWithRetry deadline ping tie 5 t0 of
             (Some err, _, _) \<Rightarrow> Inl (Wrapf ''failed to ping database'' err)
           | (None, _, _) \<Rightarrow> Inr ()))"

text \<open>
  The start of \<^verbatim>\<open>main\<close>: a failure of \<^verbatim>\<open>database.New\<close> is logged with
  \<^verbatim>\<open>logger.Fatal\<close>, which ends the process; otherwise the routes are set up and the
  server listens.
\<close>

datatype startup = Fatal string error | Listening

definition main_startup :: "error option \<Rightarrow> Time \<Rightarrow> pinger \<Rightarrow> (nat \<Rightarrow> bool) \<Rightarrow> startup" where
  "main_startup openErr t0 ping tie =
     (case New openErr t0 ping tie of
        Inl err \<Rightarrow> Fatal ''failed to connect to database'' err
      | Inr db \<Rightarrow> Listening)"

text \<open>What the trace shows: the probes, and the lengths of the waits.\<close>

fun probes :: "event list \<Rightarrow> (nat \<times> Time \<times> bool) list" where
  "probes [] = []"
| "probes (Probe n t ok # evs) = (n, t, ok) # probes evs"
| "probes (Backoff d c # evs) = probes evs"

fun backoffs :: "event list \<Rightarrow> Duration list" where
  "backoffs [] = []"
| "backoffs (Probe n t ok # evs) = backoffs evs"
| "backoffs (Backoff d c # evs) = d # backoffs evs"

text \<open>A database that refuses the first two probes, each probe taking a quarter of a second.\<close>

definition refuse_twice :: pinger where
  "refuse_twice i t = (250000000, if i < 2 then Some (errorString ''connection refused'') else None)"

text \<open>
  A request that came through two proxies, and a writer that has nothing written yet
  together with an empty log.
\<close>

definition proxied_request :: Request where
  "proxied_request =
     \<lparr>Method = ''GET'', Path = ''/healthz'',
      ReqHeader = [''X-Forwarded-For'' \<mapsto> [''203.0.113.7, 10.0.0.1''],
                   ''X-Real-IP'' \<mapsto> [''198.51.100.2'']],
      RemoteAddr = ''192.0.2.1:4711''\<rparr>"

definition fresh :: "ResponseWriter \<times> LogRecord list" where
  "fresh = (newResponseWriter, [])"

section \<open>Identity tokens (services: generateToken, ValidateToken)\<close>

subsection \<open>JSON numbers and Go values\<close>

text \<open>
  The claims travel as JSON and come back as Go values: a JSON number decoded into an
  \<^verbatim>\<open>interface{}\<close> is a \<^verbatim>\<open>float64\<close>, which is why the code asserts
  \<^verbatim>\<open>claims["sub"].(float64)\<close>. The numbers this program writes are integers, so a JSON
  number is an integer here, and a \<^verbatim>\<open>float64\<close> is the integer it holds.
  \<open>float64_of_int\<close> is the double nearest to an integer (53 significant bits, ties to
  the even significand): integers below \<open>2 ^ 53\<close> in magnitude are kept, larger ones are
  rounded.
\<close>

datatype goval = Float64 int | GoString string | GoBool bool | GoNil

definition float64_of_int :: "int \<Rightarrow> int" where
  "float64_of_int n =
     (if \<bar>n\<bar> < 2 ^ 53 then n
      else let k = nat (bitlen \<bar>n\<bar> - 53);
               q = \<bar>n\<bar> div 2 ^ k;
               rest = \<bar>n\<bar> mod 2 ^ k;
               half = 2 ^ (k - 1);
               q = (if half < rest \<or> (rest = half \<and> odd q) then q + 1 else q)
           in sgn n * q * 2 ^ k)"

fun decode_json :: "json \<Rightarrow> goval" where
  "decode_json (JNumber n) = Float64 (float64_of_int n)"
| "decode_json (JString s) = GoString s"
| "decode_json (JBool b) = GoBool b"
| "decode_json JNull = GoNil"

definition decode_object :: "(string \<times> json) list \<Rightarrow> (string \<rightharpoonup> goval)" where
  "decode_object kvs = map_option decode_json \<circ> map_of kvs"

text \<open>
  \<^verbatim>\<open>int(sub)\<close>, the conversion of a \<^verbatim>\<open>float64\<close> to Go's 64-bit \<^verbatim>\<open>int\<close>: the
  value itself when it fits; outside the range Go leaves the result to the platform,
  and amd64 gives the least integer.
\<close>

definition int_of_float64 :: "int \<Rightarrow> int" where
  "int_of_float64 f = (if - (2 ^ 63) \<le> f \<and> f < 2 ^ 63 then f else - (2 ^ 63))"

subsection \<open>The token library\<close>

text \<open>
  Modelled from the spec: the token library (\<^verbatim>\<open>github.com/golang-jwt/jwt/v5\<close>:
  \<^verbatim>\<open>NewWithClaims\<close>, \<^verbatim>\<open>SignedString\<close>, \<^verbatim>\<open>Parse\<close>) is not among the sources.
  The spec describes a token as an opaque signed string encoding subject, issued-at and
  expiry, whose signature is verifiable only with the server's secret and is invalidated
  by any change of a claim; validation decodes, checks the algorithm family and the
  signature, then the expiry, and fails with \<open>MalformedToken\<close> (structurally invalid),
  \<open>BadSignature\<close> (signature mismatch or wrong algorithm) or \<open>Expired\<close>
  (\<open>exp \<le> now\<close>).

  Accordingly a token string is taken apart symbolically: it is either malformed or the
  compact form of a header, a claim set and a signature; a signature is the term that
  records the algorithm, the key and the header and claims it was made over, so it
  verifies exactly under that algorithm and key for that content.
\<close>

datatype SigningMethod =
    SigningMethodHMAC string
  | SigningMethodRSA string
  | SigningMethodRSAPSS string
  | SigningMethodECDSA string
  | SigningMethodEd25519
  | SigningMethodNone

text \<open>
  Modelled from the spec: the algorithm families of the token library (missing from
  the sources), under the names by which the library registers its signing methods.
\<close>

definition hmac_algs :: "string list" where
  "hmac_algs = [''HS256'', ''HS384'', ''HS512'']"

definition rsa_algs :: "string list" where
  "rsa_algs = [''RS256'', ''RS384'', ''RS512'']"

definition rsapss_algs :: "string list" where
  "rsapss_algs = [''PS256'', ''PS384'', ''PS512'']"

definition ecdsa_algs :: "string list" where
  "ecdsa_algs = [''ES256'', ''ES384'', ''ES512'']"

definition GetSigningMethod :: "string \<Rightarrow> SigningMethod option" where
  "GetSigningMethod alg =
     (if alg \<in> set hmac_algs then Some (SigningMethodHMAC alg)
      else if alg \<in> set rsa_algs then Some (SigningMethodRSA alg)
      else if alg \<in> set rsapss_algs then Some (SigningMethodRSAPSS alg)
      else if alg \<in> set ecdsa_algs then Some (SigningMethodECDSA alg)
      else if alg = ''EdDSA'' then Some SigningMethodEd25519
      else if alg = ''none'' then Some SigningMethodNone
      else None)"

datatype Claims = MapClaims "string \<rightharpoonup> goval" | OtherClaims

record Token =
  TokMethod :: SigningMethod
  TokHeader :: "string \<rightharpoonup> goval"
  TokClaims :: Claims
  Valid :: bool

text \<open>
  Modelled from the spec: the library's signature check and its parsed token (missing
  from the sources). The key of this program is a byte string. Only the HMAC methods
  accept such a key; a signature verifies when it was made by the same method with the
  same key over the same header and claims.
\<close>

definition Verify ::
  "SigningMethod \<Rightarrow> (string \<times> json) list \<Rightarrow> (string \<times> json) list \<Rightarrow> signature \<Rightarrow> string \<Rightarrow> bool" where
  "Verify m hdr cl sg key =
     (case m of
        SigningMethodHMAC alg \<Rightarrow> sg = Sig alg key hdr cl
      | _ \<Rightarrow> False)"

text \<open>
  Modelled from the spec: the library's expiry check and \<^verbatim>\<open>Parse\<close> (missing from
  the sources). A token without \<open>exp\<close> does not expire; a numeric \<open>exp\<close> (seconds
  since the epoch) must lie after the current instant (\<open>Expired\<close> when \<open>exp \<le> now\<close>);
  an \<open>exp\<close> that is no number makes the claim set structurally invalid. The parser
  decodes, finds the signing method of the header's algorithm, asks the caller's key
  function for the key, checks the signature and then the expiry; a missing or unknown
  algorithm and a key function that refuses count as a wrong algorithm.
\<close>

definition verifyExpiresAt :: "(string \<rightharpoonup> goval) \<Rightarrow> Time \<Rightarrow> error option" where
  "verifyExpiresAt claims now =
     (case claims ''exp'' of
        None \<Rightarrow> None
      | Some (Float64 e) \<Rightarrow> (if now < e * Second then None else Some Expired)
      | Some _ \<Rightarrow> Some MalformedToken)"

definition Parse ::
  "token_string \<Rightarrow> (Token \<Rightarrow> error + string) \<Rightarrow> Time \<Rightarrow> error + Token" where
  "Parse tokenString keyFunc now =
     (case tokenString of
        Malformed _ \<Rightarrow> Inl MalformedToken
      | Compact hdr cl sg \<Rightarrow>
          (case map_of hdr ''alg'' of
             Some (JString alg) \<Rightarrow>
               (case GetSigningMethod alg of
                  None \<Rightarrow> Inl BadSignature
                | Some m \<Rightarrow>
                    (let token = \<lparr>TokMethod = m, TokHeader = decode_object hdr,
                                  TokClaims = MapClaims (decode_object cl), Valid = False\<rparr>
                     in case keyFunc token of
                          Inl err \<Rightarrow> Inl BadSignature
                        | Inr key \<Rightarrow>
                            if \<not> Verify m hdr cl sg key then Inl BadSignature
                            else (case verifyExpiresAt (decode_object cl) now of
                                    Some err \<Rightarrow> Inl err
                                  | None \<Rightarrow> Inr (token\<lparr>Valid := True\<rparr>))))
           | _ \<Rightarrow> Inl BadSignature))"

text \<open>
  Modelled from the spec: the library's signing (\<^verbatim>\<open>NewWithClaims\<close> and
  \<^verbatim>\<open>SignedString\<close>, missing from the sources). The method's name and the type go
  into the header; signing with an HMAC method and a byte-string key cannot fail. JSON
  objects are written with their keys in order.
\<close>

definition SignedString :: "string \<Rightarrow> (string \<times> json) list \<Rightarrow> string \<Rightarrow> error + token_string" where
  "SignedString alg claims key =
     (let hdr = [(''alg'', JString alg), (''typ'', JString ''JWT'')] in
      case GetSigningMethod alg of
        Some (SigningMethodHMAC a) \<Rightarrow> Inr (Compact hdr claims (Sig a key hdr claims))
      | _ \<Rightarrow> Inl (errorString ''key is of invalid type''))"

subsection \<open>The service's own code\<close>

definition Hour :: Duration where
  "Hour = 3600 * Second"

text \<open>\<^verbatim>\<open>Time.Unix\<close>: the whole seconds since the epoch.\<close>

definition Unix :: "Time \<Rightarrow> int" where
  "Unix t = t div Second"

definition generateToken :: "string \<Rightarrow> Time \<Rightarrow> int \<Rightarrow> error + token_string" where
  "generateToken jwtSecret now userID =
     (let claims = [(''exp'', JNumber (Unix (now + 24 * Hour))),
                    (''iat'', JNumber (Unix now)),
                    (''sub'', JNumber userID)]
      in case SignedString ''HS256'' claims jwtSecret of
           Inl err \<Rightarrow> Inl (Wrapf ''failed to sign token'' err)
         | Inr tokenString \<Rightarrow> Inr tokenString)"

text \<open>The key function that \<^verbatim>\<open>ValidateToken\<close> hands to the parser.\<close>

definition keyFunc :: "string \<Rightarrow> Token \<Rightarrow> error + string" where
  "keyFunc jwtSecret token =
     (case TokMethod token of
        SigningMethodHMAC _ \<Rightarrow> Inr jwtSecret
      | _ \<Rightarrow>
          Inl (errorString (''unexpected signing method: '' @
                 (case TokHeader token ''alg'' of Some (GoString a) \<Rightarrow> a | _ \<Rightarrow> ''<nil>''))))"

definition ValidateToken :: "string \<Rightarrow> Time \<Rightarrow> token_string \<Rightarrow> error + int" where
  "ValidateToken jwtSecret now tokenString =
     (case Parse tokenString (keyFunc jwtSecret) now of
        Inl err \<Rightarrow> Inl (Wrapf ''failed to parse token'' err)
      | Inr token \<Rightarrow>
          if \<not> Valid token then Inl (errorString ''invalid token'')
          else (case TokClaims token of
                  OtherClaims \<Rightarrow> Inl (errorString ''invalid token claims'')
                | MapClaims claims \<Rightarrow>
                    (case claims ''sub'' of
                       Some (Float64 sub) \<Rightarrow> Inr (int_of_float64 sub)
                     | _ \<Rightarrow> Inl (errorString ''invalid token subject''))))"

text \<open>
  A token is signed for the key when its header names an HMAC algorithm and its
  signature verifies by that method under the key.
\<close>

definition signed_by ::
  "string \<Rightarrow> (string \<times> json) list \<Rightarrow> (string \<times> json) list \<Rightarrow> signature \<Rightarrow> bool" where
  "signed_by key hdr cl sg \<longleftrightarrow>
     (\<exists>alg. map_of hdr ''alg'' = Some (JString alg)
        \<and> GetSigningMethod alg = Some (SigningMethodHMAC alg)
        \<and> Verify (SigningMethodHMAC alg) hdr cl sg key)"

text \<open>Issuing a token at one instant and validating it at another.\<close>

definition issue_then_validate :: "string \<Rightarrow> Time \<Rightarrow> Time \<Rightarrow> int \<Rightarrow> error + int" where
  "issue_then_validate jwtSecret issued now userID =
     (case generateToken jwtSecret issued userID of
        Inl err \<Rightarrow> Inl err
      | Inr tokenString \<Rightarrow> ValidateToken jwtSecret now tokenString)"

text \<open>
  Example tokens: one that names no algorithm and carries no signature, the token
  issued for user 7 at an instant in November 2023, and a token signed with the same
  secret that expires at the same instant and names no subject.
\<close>

definition unsigned_token :: token_string where
  "unsigned_token =
     Compact [(''alg'', JString ''none''), (''typ'', JString ''JWT'')]
             [(''exp'', JNumber 4102444800), (''sub'', JNumber 1)]
             (Junk [])"

definition issued_at :: Time where
  "issued_at = 1700000000123456789"

definition token_of_7 :: token_string where
  "token_of_7 =
     Compact [(''alg'', JString ''HS256''), (''typ'', JString ''JWT'')]
             [(''exp'', JNumber 1700086400), (''iat'', JNumber 1700000000), (''sub'', JNumber 7)]
             (Sig ''HS256'' ''secret'' [(''alg'', JString ''HS256''), (''typ'', JString ''JWT'')]
                [(''exp'', JNumber 1700086400), (''iat'', JNumber 1700000000), (''sub'', JNumber 7)])"

definition token_without_sub :: token_string where
  "token_without_sub =
     Compact [(''alg'', JString ''HS256''), (''typ'', JString ''JWT'')]
             [(''exp'', JNumber 1700086400)]
             (Sig ''HS256'' ''secret'' [(''alg'', JString ''HS256''), (''typ'', JString ''JWT'')]
                [(''exp'', JNumber 1700086400)])"

section \<open>Rate limiting (middleware: RateLimiter, RateLimitMiddleware)\<close>

subsection \<open>The token bucket\<close>

text \<open>
  Modelled from the spec: the token bucket (\<^verbatim>\<open>golang.org/x/time/rate\<close>:
  \<^verbatim>\<open>NewLimiter\<close>, \<^verbatim>\<open>Allow\<close>, \<^verbatim>\<open>Reserve\<close> and the reservation's
  \<^verbatim>\<open>OK\<close>, \<^verbatim>\<open>Delay\<close> and \<^verbatim>\<open>Cancel\<close>) is not among the sources. The spec
  describes a bucket of capacity, refill rate, current tokens and last-refill timestamp,
  whose tokens stay between 0 and the capacity and are refilled at the rate of
  \<open>rps\<close> tokens per second up to the capacity; an admitted request consumes one token,
  and a request is denied when no token is there; the retry-after time is the time
  until the next token would be available and is never negative.

  Tokens are rational numbers here (the library computes in \<^verbatim>\<open>float64\<close>), and
  waiting times are whole nanoseconds.
\<close>

record Bucket =
  capacity :: int
  refill :: int
  tokens :: rat
  last_refill :: Time

definition NewLimiter :: "int \<Rightarrow> int \<Rightarrow> Bucket" where
  "NewLimiter r b = \<lparr>capacity = b, refill = r, tokens = of_int b, last_refill = 0\<rparr>"

text \<open>
  Modelled from the spec: the refill of the bucket and its admission (the library's
  \<^verbatim>\<open>Allow\<close>, missing from the sources). The tokens gained in a span of time are
  \<open>rps\<close> per second; the tokens there at an instant are those at the last refill plus
  the gain since, up to the capacity; a request is admitted when a whole token is
  there, and takes it.
\<close>

definition tokensFromDuration :: "int \<Rightarrow> Duration \<Rightarrow> rat" where
  "tokensFromDuration r d = (if r \<le> 0 then 0 else of_int (d * r) / of_int Second)"

definition available :: "Bucket \<Rightarrow> Time \<Rightarrow> rat" where
  "available b t =
     (let elapsed = max 0 (t - last_refill b);
          filled = tokens b + tokensFromDuration (refill b) elapsed
      in min (of_int (capacity b)) filled)"

definition Allow :: "Time \<Rightarrow> Bucket \<Rightarrow> bool \<times> Bucket" where
  "Allow t b =
     (let avail = available b t in
      if 1 \<le> avail then (True, b\<lparr>tokens := avail - 1, last_refill := t\<rparr>)
      else (False, b))"

text \<open>
  Modelled from the spec: the retry-after time (the library's \<^verbatim>\<open>Reserve\<close> and
  \<^verbatim>\<open>Delay\<close>, missing from the sources). A reservation takes the next token, which
  may lie in the future: it says when the token is there, and the delay is the time
  until then, never negative. The time that the missing part of a token takes is that
  part divided by the rate, in whole nanoseconds; when nothing is refilled, it has no
  end and is the largest duration. Only a request for more than the bucket can ever
  hold (a capacity below one) gets no reservation, and then the delay is the largest
  duration as well.
\<close>

definition InfDuration :: Duration where
  "InfDuration = 2 ^ 63 - 1"

definition durationFromTokens :: "int \<Rightarrow> rat \<Rightarrow> Duration" where
  "durationFromTokens r missing =
     (if r \<le> 0 then InfDuration else \<lceil>missing * of_int Second / of_int r\<rceil>)"

record Reservation =
  OK :: bool
  timeToAct :: Time

definition Reserve :: "Time \<Rightarrow> Bucket \<Rightarrow> Reservation \<times> Bucket" where
  "Reserve t b =
     (let left = available b t - 1;
          waitDuration = (if left < 0 then durationFromTokens (refill b) (- left) else 0)
      in if capacity b < 1 then (\<lparr>OK = False, timeToAct = t\<rparr>, b)
         else (\<lparr>OK = True, timeToAct = t + waitDuration\<rparr>,
               b\<lparr>tokens := left, last_refill := t\<rparr>))"

definition Delay :: "Time \<Rightarrow> Reservation \<Rightarrow> Duration" where
  "Delay t r = (if \<not> OK r then InfDuration else max 0 (timeToAct r - t))"

text \<open>
  Modelled from the spec: the library's \<^verbatim>\<open>Cancel\<close> (missing from the sources), of
  which the spec says nothing; it gives the token back, unless there was no reservation
  or its time has passed already.
\<close>

definition Cancel :: "Time \<Rightarrow> Reservation \<Rightarrow> Bucket \<Rightarrow> Bucket" where
  "Cancel t r b =
     (if \<not> OK r \<or> timeToAct r < t then b
      else b\<lparr>tokens := min (of_int (capacity b)) (available b t + 1), last_refill := t\<rparr>)"

subsection \<open>The limiter and the middleware\<close>

record RateLimiter =
  limiters :: "string \<rightharpoonup> Bucket"
  rps :: int
  burst :: int

definition NewRateLimiter :: "int \<Rightarrow> int \<Rightarrow> RateLimiter" where
  "NewRateLimiter r b = \<lparr>limiters = Map.empty, rps = r, burst = b\<rparr>"

definition getLimiter :: "string \<Rightarrow> RateLimiter \<Rightarrow> Bucket \<times> RateLimiter" where
  "getLimiter ip rl =
     (case limiters rl ip of
        Some limiter \<Rightarrow> (limiter, rl)
      | None \<Rightarrow>
          (let limiter = NewLimiter (rps rl) (burst rl)
           in (limiter, rl\<lparr>limiters := (limiters rl)(ip \<mapsto> limiter)\<rparr>)))"

text \<open>
  The bucket of an address is shared by reference; what a call does to it is written
  back under the address.
\<close>

definition put :: "string \<Rightarrow> Bucket \<Rightarrow> RateLimiter \<Rightarrow> RateLimiter" where
  "put ip b rl = rl\<lparr>limiters := (limiters rl)(ip \<mapsto> b)\<rparr>"

text \<open>
  One round of the loop in \<^verbatim>\<open>cleanup\<close>, which the middleware starts as a goroutine
  of its own: at every tick of its five-minute ticker the table is replaced by an empty
  one.
\<close>

definition cleanup :: "RateLimiter \<Rightarrow> RateLimiter" where
  "cleanup rl = rl\<lparr>limiters := Map.empty\<rparr>"

text \<open>
  The admission check of the middleware (\<^verbatim>\<open>getLimiter\<close>, then \<^verbatim>\<open>Allow\<close>) for the
  identity \<open>ip\<close> at the instant \<open>t\<close>, and a run of the limiter: the admission checks
  of one identity, each at its instant, and between them the rounds of the cleanup, in
  the order in which they take the lock.
\<close>

datatype occurrence = Check Time | Tick

definition allow :: "string \<Rightarrow> Time \<Rightarrow> RateLimiter \<Rightarrow> bool \<times> RateLimiter" where
  "allow ip t rl =
     (let (ipLimiter, rl) = getLimiter ip rl;
          (admitted, ipLimiter) = Allow t ipLimiter
      in (admitted, put ip ipLimiter rl))"

fun allows :: "string \<Rightarrow> occurrence list \<Rightarrow> RateLimiter \<Rightarrow> bool list" where
  "allows ip [] rl = []"
| "allows ip (Check t # es) rl =
     (let (admitted, rl) = allow ip t rl in admitted # allows ip es rl)"
| "allows ip (Tick # es) rl = allows ip es (cleanup rl)"

text \<open>
  The handler that the middleware wraps around \<open>next\<close>. The clock is read four times
  on the denial path (by \<^verbatim>\<open>Allow\<close>, \<^verbatim>\<open>Reserve\<close>, \<^verbatim>\<open>Delay\<close> and
  \<^verbatim>\<open>Cancel\<close>); the readings are inputs: the first one, and the time that passes
  from each to the next, which is not negative. \<open>String\<close> is Go's
  \<^verbatim>\<open>Duration.String\<close>, which is not among the sources and is a parameter. The state
  is the limiter, the response writer and the log.
\<close>

record Clock =
  atAllow :: Time
  toReserve :: nat
  toDelay :: nat
  toCancel :: nat

definition atReserve :: "Clock \<Rightarrow> Time" where
  "atReserve clock = atAllow clock + int (toReserve clock)"

definition atDelay :: "Clock \<Rightarrow> Time" where
  "atDelay clock = atReserve clock + int (toDelay clock)"

definition atCancel :: "Clock \<Rightarrow> Time" where
  "atCancel clock = atDelay clock + int (toCancel clock)"

type_synonym world = "RateLimiter \<times> ResponseWriter \<times> LogRecord list"

definition RateLimitMiddleware ::
  "(Duration \<Rightarrow> string) \<Rightarrow> (Request \<Rightarrow> ResponseWriter \<Rightarrow> ResponseWriter) \<Rightarrow> Clock \<Rightarrow> Request
     \<Rightarrow> world \<Rightarrow> world" where
  \<open>RateLimitMiddleware String next clock r s =
     (let (limiter, w, logs) = s;
          ip = getClientIP r;
          (ipLimiter, limiter) = getLimiter ip limiter;
          (admitted, ipLimiter) = Allow (atAllow clock) ipLimiter
      in if \<not> admitted then
           (let logs = logs @ [\<lparr>lvl = WarnLevel, msg = ''rate limit exceeded'',
                                 logFields = [(''ip'', ip), (''path'', Path r),
                                              (''method'', Method r)]\<rparr>];
                (reservation, ipLimiter) = Reserve (atReserve clock) ipLimiter;
                (ipLimiter, w) =
                  (if \<not> OK reservation then
                     (Cancel (atCancel clock) reservation ipLimiter,
                      SetHeader ''Retry-After'' ''60'' w)
                   else
                     (let delay = Delay (atDelay clock) reservation
                      in (Cancel (atCancel clock) reservation ipLimiter,
                          SetHeader ''Retry-After'' (String delay) w)));
                w = SetHeader ''Content-Type'' ''application/json'' w;
                w = WriteHeader StatusTooManyRequests w;
                w = Write (Raw ''{"error":"too many requests","message":"rate limit exceeded"}'') w
            in (put ip ipLimiter limiter, w, logs))
         else (put ip ipLimiter limiter, next r w, logs))\<close>

text \<open>
  An example rendering of durations, standing in for \<^verbatim>\<open>Duration.String\<close> where a
  concrete function is needed: the nanoseconds in decimal, followed by "ns".
\<close>

function decimal :: "int \<Rightarrow> string" where
  "decimal n =
     (if n < 10 then [] else decimal (n div 10)) @ [''0123456789'' ! nat (n mod 10)]"
  by pat_completeness auto

termination
  by (relation "measure nat") auto

definition ns_String :: "Duration \<Rightarrow> string" where
  "ns_String d = (if d < 0 then ''-'' else []) @ decimal \<bar>d\<bar> @ ''ns''"

text \<open>
  A direct request from one address, a handler that answers 200, and the four clock
  readings of a request that arrives at \<open>t\<close>, ten nanoseconds apart.
\<close>

definition direct_request :: Request where
  "direct_request =
     \<lparr>Method = ''POST'', Path = ''/auth/login'', ReqHeader = Map.empty,
      RemoteAddr = ''192.0.2.1:4711''\<rparr>"

definition answer_ok :: "Request \<Rightarrow> ResponseWriter \<Rightarrow> ResponseWriter" where
  "answer_ok r w = WriteHeader StatusOK w"

definition readings :: "Time \<Rightarrow> Clock" where
  "readings t = \<lparr>atAllow = t, toReserve = 10, toDelay = 10, toCancel = 10\<rparr>"

text \<open>The limiter after one admitted request at instant 0, with a capacity of one.\<close>

definition used_up :: RateLimiter where
  "used_up =
     \<lparr>limiters = [''192.0.2.1:4711'' \<mapsto>
         \<lparr>capacity = 1, refill = 10, tokens = 0, last_refill = 0\<rparr>],
      rps = 10, burst = 1\<rparr>"

text \<open>
  The limiter of rate 0 and capacity 1 after one request at instant 0, which was
  admitted.
\<close>

definition once_admitted :: RateLimiter where
  "once_admitted =
     fst (RateLimitMiddleware ns_String answer_ok (readings 0) direct_request
            (NewRateLimiter 0 1, newResponseWriter, []))"

text \<open>The body of the 429 response, as the middleware writes it.\<close>

definition rate_limit_body :: string where
  \<open>rate_limit_body = ''{"error":"too many requests","message":"rate limit exceeded"}''\<close>

section \<open>Registration (repositories, services and handlers)\<close>

text \<open>
  The database is an input: what the scan of the query's row gives, an error of the
  driver or the values. \<^verbatim>\<open>sql.ErrNoRows\<close> is the driver's error for an empty
  result.
\<close>

definition ErrNoRows :: error where
  "ErrNoRows = errorString ''sql: no rows in result set''"

definition duplicate_key_text :: string where
  \<open>duplicate_key_text =
     ''pq: duplicate key value violates unique constraint "users_email_key"''\<close>

definition GetByEmail :: "error + User \<Rightarrow> error + User" where
  "GetByEmail scan =
     (case scan of
        Inl err \<Rightarrow>
          if err = ErrNoRows then Inl ErrUserNotFound
          else Inl (Wrapf ''failed to get user by email'' err)
      | Inr user \<Rightarrow> Inr user)"

definition Create :: "error + int \<Rightarrow> User \<Rightarrow> error + User" where
  "Create scan user =
     (case scan of
        Inl err \<Rightarrow>
          if Error err = duplicate_key_text then Inl ErrUserAlreadyExists
          else Inl (Wrapf ''failed to create user'' err)
      | Inr newID \<Rightarrow> Inr (user\<lparr>ID := newID\<rparr>))"

record RegisterRequest =
  reqEmail :: string
  reqPassword :: string

text \<open>
  What the outside gives to one registration: the row looked up by email, the outcome
  of \<^verbatim>\<open>bcrypt.GenerateFromPassword\<close>, the outcome of the insertion, and the clock.
\<close>

record Outside =
  lookup :: "error + User"
  bcrypt :: "error + string"
  insertion :: "error + int"
  clockNow :: Time

definition AuthService_Register ::
  "string \<Rightarrow> Outside \<Rightarrow> RegisterRequest \<Rightarrow> error + token_string \<times> User" where
  "AuthService_Register jwtSecret out req =
     (case GetByEmail (lookup out) of
        Inr existingUser \<Rightarrow> Inl ErrUserExists
      | Inl err \<Rightarrow>
          if err \<noteq> ErrUserNotFound then Inl (Wrapf ''failed to check existing user'' err)
          else
            (case bcrypt out of
               Inl err \<Rightarrow> Inl (Wrapf ''failed to hash password'' err)
             | Inr passwordHash \<Rightarrow>
                 (case Create (insertion out)
                         \<lparr>ID = 0, Email = reqEmail req, PasswordHash = passwordHash\<rparr> of
                    Inl err \<Rightarrow>
                      if err = ErrUserAlreadyExists then Inl ErrUserExists
                      else Inl (Wrapf ''failed to create user'' err)
                  | Inr user \<Rightarrow>
                      (case generateToken jwtSecret (clockNow out) (ID user) of
                         Inl err \<Rightarrow> Inl (Wrapf ''failed to generate token'' err)
                       | Inr token \<Rightarrow> Inr (token, user)))))"

text \<open>
  The handlers' helpers; the state is the response writer and the log. (The payloads
  written here always encode, so the branch that logs an encoding error is left out.)
\<close>

definition respondWithJSON ::
  "nat \<Rightarrow> chunk \<Rightarrow> ResponseWriter \<times> LogRecord list \<Rightarrow> ResponseWriter \<times> LogRecord list" where
  "respondWithJSON code payload s =
     (let (w, logs) = s;
          w = SetHeader ''Content-Type'' ''application/json'' w;
          w = WriteHeader code w;
          w = Write payload w
      in (w, logs))"

definition respondWithError ::
  "nat \<Rightarrow> string \<Rightarrow> error \<Rightarrow> ResponseWriter \<times> LogRecord list \<Rightarrow> ResponseWriter \<times> LogRecord list" where
  "respondWithError code message err s =
     (let (w, logs) = s;
          logs = logs @ [\<lparr>lvl = ErrorLevel, msg = message,
                           logFields = [(''error'', Error err),
                                        (''status_code'', decimal code)]\<rparr>];
          response = \<lparr>ErrorField = message, Message = Error err\<rparr>
      in respondWithJSON code (EncodedError response) (w, logs))"

text \<open>
  \<^verbatim>\<open>AuthHandler.Register\<close>: \<open>decoded\<close> is the outcome of decoding the request body,
  \<open>validation\<close> the outcome of the validator.
\<close>

definition Register ::
  "string \<Rightarrow> Outside \<Rightarrow> error + RegisterRequest \<Rightarrow> error option
     \<Rightarrow> ResponseWriter \<times> LogRecord list \<Rightarrow> ResponseWriter \<times> LogRecord list" where
  "Register jwtSecret out decoded validation s =
     (case decoded of
        Inl err \<Rightarrow> respondWithError StatusBadRequest ''invalid request body'' err s
      | Inr req \<Rightarrow>
          (case validation of
             Some err \<Rightarrow> respondWithError StatusBadRequest ''validation failed'' err s
           | None \<Rightarrow>
               (case AuthService_Register jwtSecret out req of
                  Inl err \<Rightarrow>
                    if err = ErrUserExists
                    then respondWithError StatusConflict ''user already exists'' err s
                    else respondWithError StatusInternalServerError
                           ''failed to register user'' err s
                | Inr (token, user) \<Rightarrow>
                    respondWithJSON StatusCreated (EncodedAuth token user) s)))"

text \<open>
  The middleware's own helper of the same name, which sends the reason alone, and what
  the authentication middleware answers when the token does not validate.
\<close>

definition middleware_respondWithError :: "nat \<Rightarrow> string \<Rightarrow> ResponseWriter \<Rightarrow> ResponseWriter" where
  \<open>middleware_respondWithError code message w =
     (let w = SetHeader ''Content-Type'' ''application/json'' w;
          w = WriteHeader code w;
          response = \<lparr>ErrorField = message, Message = []\<rparr>
      in Write (Raw (''{"error":"'' @ ErrorField response @ ''"}'')) w)\<close>

text \<open>
  A registration while the database cannot be reached: the lookup by email fails with
  the driver's error.
\<close>

definition database_down :: Outside where
  "database_down =
     \<lparr>lookup = Inl (errorString ''dial tcp 10.0.0.5:5432: connect: connection refused''),
      bcrypt = Inr ''$2a$10$hash'',
      insertion = Inr 1,
      clockNow = issued_at\<rparr>"

definition new_user :: RegisterRequest where
  "new_user = \<lparr>reqEmail = ''a@b.com'', reqPassword = ''secret1''\<rparr>"

section \<open>Goroutines sharing the limiter\<close>

text \<open>
  Requests are served by goroutines that share one \<^verbatim>\<open>RateLimiter\<close>. The map holds
  pointers, so the buckets live in a store and the map gives the address of an
  identity's bucket. \<^verbatim>\<open>getLimiter\<close> runs under the limiter's mutex from its first
  statement to its return, the cleanup replaces the map under the same mutex, and the
  bucket's \<^verbatim>\<open>Allow\<close> runs under the bucket's own lock; each of them is one step
  here, and goroutines interleave between the steps. A goroutine that serves a request
  of the identity first takes the bucket's address (\<open>GetLimiter\<close>) and then asks the
  bucket (\<open>AllowAt\<close>, at the instant it reads from the clock).
\<close>

datatype goroutine = Idle | Holding nat | Finished bool

record Shared =
  table :: "string \<rightharpoonup> nat"
  store :: "Bucket list"
  routines :: "goroutine list"
  sh_rps :: int
  sh_burst :: int

datatype action = GetLimiter nat | AllowAt nat Time | Cleanup

definition start :: "nat \<Rightarrow> int \<Rightarrow> int \<Rightarrow> Shared" where
  "start m r b =
     \<lparr>table = Map.empty, store = [], routines = replicate m Idle, sh_rps = r, sh_burst = b\<rparr>"

text \<open>One step; \<open>None\<close> when the goroutine is not at that point of its code.\<close>

fun step :: "string \<Rightarrow> action \<Rightarrow> Shared \<Rightarrow> Shared option" where
  "step ip (GetLimiter i) s =
     (if i < length (routines s) \<and> routines s ! i = Idle then
        (case table s ip of
           Some a \<Rightarrow> Some (s\<lparr>routines := (routines s)[i := Holding a]\<rparr>)
         | None \<Rightarrow>
             (let a = length (store s) in
              Some (s\<lparr>table := (table s)(ip \<mapsto> a),
                      store := store s @ [NewLimiter (sh_rps s) (sh_burst s)],
                      routines := (routines s)[i := Holding a]\<rparr>)))
      else None)"
| "step ip (AllowAt i t) s =
     (if i < length (routines s) then
        (case routines s ! i of
           Holding a \<Rightarrow>
             (if a < length (store s) then
                (let (admitted, b) = Allow t (store s ! a) in
                 Some (s\<lparr>store := (store s)[a := b],
                         routines := (routines s)[i := Finished admitted]\<rparr>))
              else None)
         | _ \<Rightarrow> None)
      else None)"
| "step ip Cleanup s = Some (s\<lparr>table := Map.empty\<rparr>)"

fun run :: "string \<Rightarrow> action list \<Rightarrow> Shared \<Rightarrow> Shared option" where
  "run ip [] s = Some s"
| "run ip (a # as) s = (case step ip a s of None \<Rightarrow> None | Some s' \<Rightarrow> run ip as s')"

text \<open>The instants of a schedule's calls, and the counts of a state.\<close>

fun instants :: "action list \<Rightarrow> Time list" where
  "instants [] = []"
| "instants (AllowAt i t # as) = t # instants as"
| "instants (a # as) = instants as"

fun finished :: "goroutine \<Rightarrow> bool" where
  "finished (Finished admitted) = True"
| "finished g = False"

fun was_admitted :: "goroutine \<Rightarrow> bool" where
  "was_admitted (Finished admitted) = admitted"
| "was_admitted g = False"

definition completed :: "Shared \<Rightarrow> nat" where
  "completed s = length (filter finished (routines s))"

definition admitted_count :: "Shared \<Rightarrow> nat" where
  "admitted_count s = length (filter was_admitted (routines s))"

text \<open>
  The state of a bucket of rate \<open>r\<close> and capacity \<open>B\<close> after \<open>j\<close> admissions, all
  at or after the instant \<open>t0\<close> and the last of them not after \<open>tcur\<close>: untouched when
  nothing was admitted yet, and otherwise holding at least \<open>B - j\<close> tokens and at most
  what was refilled since \<open>t0\<close> more.
\<close>

definition within_burst :: "int \<Rightarrow> int \<Rightarrow> Time \<Rightarrow> Time \<Rightarrow> nat \<Rightarrow> Bucket \<Rightarrow> bool" where
  "within_burst r B t0 tcur j b \<longleftrightarrow>
     (j = 0 \<and> b = NewLimiter r B) \<or>
     (1 \<le> j \<and> int j \<le> B \<and> capacity b = B \<and> refill b = r
      \<and> of_int (B - int j) \<le> tokens b
      \<and> tokens b \<le> of_int (B - int j) + tokensFromDuration r (last_refill b - t0)
      \<and> t0 \<le> last_refill b \<and> last_refill b \<le> tcur)"

text \<open>
  What holds of the shared state as long as the map is not replaced: every goroutine
  that has taken an address has taken the one the map gives for the identity, the bucket
  there is as described, and of the calls completed so far the first \<open>B\<close> were
  admitted.
\<close>

definition consistent :: "string \<Rightarrow> int \<Rightarrow> int \<Rightarrow> Time \<Rightarrow> Time \<Rightarrow> Shared \<Rightarrow> bool" where
  "consistent ip r B t0 tcur s \<longleftrightarrow>
     sh_rps s = r \<and> sh_burst s = B
     \<and> admitted_count s = min (completed s) (nat B)
     \<and> (case table s ip of
          None \<Rightarrow> list_all (\<lambda>g. g = Idle) (routines s)
        | Some a \<Rightarrow>
            a < length (store s)
            \<and> within_burst r B t0 tcur (admitted_count s) (store s ! a)
            \<and> list_all (\<lambda>g. case g of Holding a' \<Rightarrow> a' = a | _ \<Rightarrow> True) (routines s))"

text \<open>
  Three schedules for one address: three goroutines whose steps interleave; two
  goroutines with a cleanup between their lookups; and five goroutines of which the
  first, third and fifth read the clock at instant 0 and the second and fourth 90
  milliseconds later, each of the early readers reaching the bucket only after the late
  reader before it.
\<close>

definition interleaved :: "action list" where
  "interleaved =
     [GetLimiter 0, GetLimiter 1, AllowAt 1 5, GetLimiter 2, AllowAt 0 5, AllowAt 2 6]"

definition with_cleanup :: "action list" where
  "with_cleanup = [GetLimiter 0, Cleanup, GetLimiter 1, AllowAt 0 5, AllowAt 1 5]"

definition overtaken :: "action list" where
  "overtaken =
     [GetLimiter 0, GetLimiter 1, GetLimiter 2, GetLimiter 3, GetLimiter 4,
      AllowAt 0 0, AllowAt 1 90000000, AllowAt 2 0, AllowAt 3 90000000, AllowAt 4 0]"

chapter \<open>Properties\<close>

section \<open>Startup probes (C7)\<close>

text \<open>
  The lemmas below follow the loop by induction on the number of iterations left, with
  the loop variables generalised.
\<close>

lemma pingLoop_probes_le:
  "pingLoop deadline ping tie k i now err = (r, t, evs) \<Longrightarrow> length (probes evs) \<le> k"
proof (induction k arbitrary: i now err r t evs)
  case 0
  then show ?case by simp
next
  case (Suc k)
  then show ?case
    by (fastforce simp: Let_def split: prod.splits option.splits if_splits)
qed

lemma pingLoop_backoffs:
  "pingLoop deadline ping tie k i now err = (r, t, evs) \<Longrightarrow>
     prefix (backoffs evs) (map (\<lambda>j. Second * int (j + 1)) [i ..< i + k])"
proof (induction k arbitrary: i now err r t evs)
  case 0
  then show ?case by simp
next
  case (Suc k)
  obtain took e where p: "ping i now = (took, e)" by (cases "ping i now")
  show ?case
  proof (cases e)
    case None
    with Suc.prems p show ?thesis by auto
  next
    case (Some e')
    let ?wake = "now + took + Second * int (i + 1)"
    have up: "[i ..< i + Suc k] = i # [i + 1 ..< (i + 1) + k]"
      by (simp add: upt_conv_Cons)
    show ?thesis
    proof (cases "deadline < ?wake \<or> (deadline = ?wake \<and> \<not> tie i)")
      case True
      with Suc.prems p Some have "evs = [Probe (i + 1) now False, Backoff (Second * int (i + 1)) False]"
        by (auto simp: Let_def)
      then show ?thesis unfolding up by simp
    next
      case False
      obtain r' t' evs' where rec: "pingLoop deadline ping tie k (i + 1) ?wake (Some e') = (r', t', evs')"
        by (cases "pingLoop deadline ping tie k (i + 1) ?wake (Some e')") auto
      with Suc.prems p Some False have "evs = Probe (i + 1) now False # Backoff (Second * int (i + 1)) True # evs'"
        by (auto simp: Let_def)
      moreover from Suc.IH[OF rec] have "prefix (backoffs evs') (map (\<lambda>j. Second * int (j + 1)) [i + 1 ..< (i + 1) + k])" .
      ultimately show ?thesis unfolding up by simp
    qed
  qed
qed

lemma pingLoop_success:
  "pingLoop deadline ping tie k i now err = (r, t, evs) \<Longrightarrow> Probe n s True \<in> set evs \<Longrightarrow>
     r = None \<and> last evs = Probe n s True \<and> t = s + fst (ping (n - 1) s)"
proof (induction k arbitrary: i now err r t evs)
  case 0
  then show ?case by simp
next
  case (Suc k)
  obtain took e where p: "ping i now = (took, e)" by (cases "ping i now")
  show ?case
  proof (cases e)
    case None
    with Suc.prems p show ?thesis by auto
  next
    case (Some e')
    let ?wake = "now + took + Second * int (i + 1)"
    show ?thesis
    proof (cases "deadline < ?wake \<or> (deadline = ?wake \<and> \<not> tie i)")
      case True
      with Suc.prems p Some show ?thesis by (auto simp: Let_def)
    next
      case False
      obtain r' t' evs' where rec: "pingLoop deadline ping tie k (i + 1) ?wake (Some e') = (r', t', evs')"
        by (cases "pingLoop deadline ping tie k (i + 1) ?wake (Some e')") auto
      with Suc.prems(1) p Some False
      have eq: "evs = Probe (i + 1) now False # Backoff (Second * int (i + 1)) True # evs'" "r = r'" "t = t'"
        by (auto simp: Let_def)
      with Suc.prems(2) have mem: "Probe n s True \<in> set evs'" by auto
      from Suc.IH[OF rec mem] eq mem show ?thesis by auto
    qed
  qed
qed

lemma pingLoop_failure:
  "pingLoop deadline ping tie k i now err = (r, t, evs) \<Longrightarrow>
     \<forall>n s. Probe n s True \<notin> set evs \<Longrightarrow> 0 < k \<or> err \<noteq> None \<Longrightarrow> r \<noteq> None"
proof (induction k arbitrary: i now err r t evs)
  case 0
  then show ?case by simp
next
  case (Suc k)
  obtain took e where p: "ping i now = (took, e)" by (cases "ping i now")
  show ?case
  proof (cases e)
    case None
    with Suc.prems p show ?thesis by auto
  next
    case (Some e')
    let ?wake = "now + took + Second * int (i + 1)"
    show ?thesis
    proof (cases "deadline < ?wake \<or> (deadline = ?wake \<and> \<not> tie i)")
      case True
      with Suc.prems p Some show ?thesis by (auto simp: Let_def)
    next
      case False
      obtain r' t' evs' where rec: "pingLoop deadline ping tie k (i + 1) ?wake (Some e') = (r', t', evs')"
        by (cases "pingLoop deadline ping tie k (i + 1) ?wake (Some e')") auto
      with Suc.prems(1) p Some False
      have eq: "evs = Probe (i + 1) now False # Backoff (Second * int (i + 1)) True # evs'" "r = r'"
        by (auto simp: Let_def)
      with Suc.prems(2) have "\<forall>n s. Probe n s True \<notin> set evs'" by auto
      from Suc.IH[OF rec this] eq show ?thesis by auto
    qed
  qed
qed

lemma pingLoop_probe_result:
  "pingLoop deadline ping tie k i now err = (r, t, evs) \<Longrightarrow> Probe n s ok \<in> set evs \<Longrightarrow>
     i < n \<and> n \<le> i + k \<and> ok = (snd (ping (n - 1) s) = None)"
proof (induction k arbitrary: i now err r t evs)
  case 0
  then show ?case by simp
next
  case (Suc k)
  obtain took e where p: "ping i now = (took, e)" by (cases "ping i now")
  show ?case
  proof (cases e)
    case None
    with Suc.prems p show ?thesis by auto
  next
    case (Some e')
    let ?wake = "now + took + Second * int (i + 1)"
    show ?thesis
    proof (cases "deadline < ?wake \<or> (deadline = ?wake \<and> \<not> tie i)")
      case True
      with Suc.prems p Some show ?thesis by (auto simp: Let_def)
    next
      case False
      obtain r' t' evs' where rec: "pingLoop deadline ping tie k (i + 1) ?wake (Some e') = (r', t', evs')"
        by (cases "pingLoop deadline ping tie k (i + 1) ?wake (Some e')") auto
      with Suc.prems(1) p Some False
      have eq: "evs = Probe (i + 1) now False # Backoff (Second * int (i + 1)) True # evs'"
        by (auto simp: Let_def)
      with Suc.prems(2) consider "n = i + 1" "s = now" "ok = False" | "Probe n s ok \<in> set evs'" by auto
      then show ?thesis
      proof cases
        case 1
        with p Some show ?thesis by simp
      next
        case 2
        from Suc.IH[OF rec 2] show ?thesis by auto
      qed
    qed
  qed
qed

lemma pingLoop_within:
  "pingLoop deadline ping tie k i now err = (r, t, evs) \<Longrightarrow> \<forall>j u. 0 \<le> fst (ping j u) \<Longrightarrow>
     now \<le> deadline \<Longrightarrow> Probe n s ok \<in> set evs \<Longrightarrow> now \<le> s \<and> s \<le> deadline"
proof (induction k arbitrary: i now err r t evs)
  case 0
  then show ?case by simp
next
  case (Suc k)
  obtain took e where p: "ping i now = (took, e)" by (cases "ping i now")
  from Suc.prems(2) p have took: "0 \<le> took" by (metis fst_conv)
  have sec: "0 \<le> Second * int (i + 1)" by (simp add: Second_def)
  show ?case
  proof (cases e)
    case None
    with Suc.prems p show ?thesis by auto
  next
    case (Some e')
    let ?wake = "now + took + Second * int (i + 1)"
    show ?thesis
    proof (cases "deadline < ?wake \<or> (deadline = ?wake \<and> \<not> tie i)")
      case True
      with Suc.prems p Some show ?thesis by (auto simp: Let_def)
    next
      case False
      then have wd: "?wake \<le> deadline" by auto
      obtain r' t' evs' where rec: "pingLoop deadline ping tie k (i + 1) ?wake (Some e') = (r', t', evs')"
        by (cases "pingLoop deadline ping tie k (i + 1) ?wake (Some e')") auto
      with Suc.prems(1) p Some False
      have eq: "evs = Probe (i + 1) now False # Backoff (Second * int (i + 1)) True # evs'"
        by (auto simp: Let_def)
      with Suc.prems(4) consider "s = now" | "Probe n s ok \<in> set evs'" by auto
      then show ?thesis
      proof cases
        case 1
        with Suc.prems(3) show ?thesis by simp
      next
        case 2
        from Suc.IH[OF rec Suc.prems(2) wd 2] took sec show ?thesis by linarith
      qed
    qed
  qed
qed

text \<open>
  C7. With the settings of \<^verbatim>\<open>database.New\<close> (five iterations, a deadline ten
  seconds after the start), whatever the database and the scheduler do: there are at
  most five probes; the waits begun after failed probes are 1, 2, 3, 4, 5 seconds, in
  this order; every probe is numbered 1 to 5 and reports what the database answered;
  a successful probe is the last event, and the function returns nil at the instant the
  probe ends; when no probe succeeds an error is returned; when probes take no negative
  time, every probe begins within the ten seconds; a nil result lets \<^verbatim>\<open>main\<close> go
  on to listen, and an error makes it stop with a fatal log record.
\<close>

theorem pingWithRetry_startup:
  assumes run: "pingWithRetry (t0 + 10 * Second) ping tie 5 t0 = (r, t, evs)"
  shows "length (probes evs) \<le> 5
    \<and> prefix (backoffs evs) [Second, 2 * Second, 3 * Second, 4 * Second, 5 * Second]
    \<and> (\<forall>n s ok. Probe n s ok \<in> set evs \<longrightarrow>
          1 \<le> n \<and> n \<le> 5 \<and> ok = (snd (ping (n - 1) s) = None))
    \<and> (\<forall>n s. Probe n s True \<in> set evs \<longrightarrow>
          r = None \<and> last evs = Probe n s True \<and> t = s + fst (ping (n - 1) s))
    \<and> ((\<forall>n s. Probe n s True \<notin> set evs) \<longrightarrow> r \<noteq> None)
    \<and> ((\<forall>j u. 0 \<le> fst (ping j u)) \<longrightarrow>
          (\<forall>n s ok. Probe n s ok \<in> set evs \<longrightarrow> t0 \<le> s \<and> s \<le> t0 + 10 * Second))
    \<and> (r = None \<longrightarrow> main_startup None t0 ping tie = Listening)
    \<and> (\<forall>e. r = Some e \<longrightarrow>
          main_startup None t0 ping tie =
            Fatal ''failed to connect to database'' (Wrapf ''failed to ping database'' e))"
proof -
  from run have loop: "pingLoop (t0 + 10 * Second) ping tie 5 0 t0 None = (r, t, evs)"
    by (simp add: pingWithRetry_def)
  have a: "length (probes evs) \<le> 5"
    using pingLoop_probes_le[OF loop] .
  have "map (\<lambda>j. Second * int (j + 1)) [0 ..< 0 + 5]
          = [Second, 2 * Second, 3 * Second, 4 * Second, 5 * Second]"
    by (simp add: upt_conv_Cons)
  with pingLoop_backoffs[OF loop]
  have b: "prefix (backoffs evs) [Second, 2 * Second, 3 * Second, 4 * Second, 5 * Second]"
    by simp
  have c: "\<forall>n s ok. Probe n s ok \<in> set evs \<longrightarrow>
          1 \<le> n \<and> n \<le> 5 \<and> ok = (snd (ping (n - 1) s) = None)"
    using pingLoop_probe_result[OF loop] by fastforce
  have d: "\<forall>n s. Probe n s True \<in> set evs \<longrightarrow>
          r = None \<and> last evs = Probe n s True \<and> t = s + fst (ping (n - 1) s)"
    using pingLoop_success[OF loop] by blast
  have e: "(\<forall>n s. Probe n s True \<notin> set evs) \<longrightarrow> r \<noteq> None"
    using pingLoop_failure[OF loop] by simp
  have f: "(\<forall>j u. 0 \<le> fst (ping j u)) \<longrightarrow>
          (\<forall>n s ok. Probe n s ok \<in> set evs \<longrightarrow> t0 \<le> s \<and> s \<le> t0 + 10 * Second)"
  proof (intro impI allI)
    fix n s ok
    assume nn: "\<forall>j u. 0 \<le> fst (ping j u)" and m: "Probe n s ok \<in> set evs"
    have "t0 \<le> t0 + 10 * Second" by (simp add: Second_def)
    from pingLoop_within[OF loop nn this m] show "t0 \<le> s \<and> s \<le> t0 + 10 * Second" .
  qed
  have g: "r = None \<longrightarrow> main_startup None t0 ping tie = Listening"
    using run by (simp add: main_startup_def New_def)
  have h: "\<forall>e. r = Some e \<longrightarrow>
          main_startup None t0 ping tie =
            Fatal ''failed to connect to database'' (Wrapf ''failed to ping database'' e)"
    using run by (simp add: main_startup_def New_def)
  from a b c d e f g h show ?thesis by blast
qed

lemma refuse_twice_run:
  "pingWithRetry (0 + 10 * Second) refuse_twice (\<lambda>_. True) 5 0 =
     (None, 3750000000,
      [Probe 1 0 False, Backoff 1000000000 True,
       Probe 2 1250000000 False, Backoff 2000000000 True,
       Probe 3 3500000000 True])"
  by (simp add: pingWithRetry_def refuse_twice_def Second_def eval_nat_numeral)

theorem pingWithRetry_startup_witness:
  "pingWithRetry (0 + 10 * Second) refuse_twice (\<lambda>_. True) 5 0 =
     (None, 3750000000,
      [Probe 1 0 False, Backoff 1000000000 True,
       Probe 2 1250000000 False, Backoff 2000000000 True,
       Probe 3 3500000000 True])
   \<and> main_startup None 0 refuse_twice (\<lambda>_. True) = Listening"
  using pingWithRetry_startup[OF refuse_twice_run] refuse_twice_run by simp

section \<open>Client identity (C5)\<close>

lemma Header_Get_first: "h k = Some (v # vs) \<Longrightarrow> Header_Get h k = v"
  by (simp add: Header_Get_def)

text \<open>
  C5. The identity used for rate limiting is the value of \<^verbatim>\<open>X-Forwarded-For\<close> when
  it is not empty, as it stands (the whole first value of the header, not split at
  commas); otherwise the value of \<^verbatim>\<open>X-Real-IP\<close> when it is not empty; otherwise
  the connection's remote address.
\<close>

theorem getClientIP_precedence:
  "(Header_Get (ReqHeader r) ''X-Forwarded-For'' \<noteq> [] \<longrightarrow>
      getClientIP r = Header_Get (ReqHeader r) ''X-Forwarded-For'')
   \<and> (\<forall>v vs. ReqHeader r ''X-Forwarded-For'' = Some (v # vs) \<and> v \<noteq> [] \<longrightarrow> getClientIP r = v)
   \<and> (Header_Get (ReqHeader r) ''X-Forwarded-For'' = [] \<and>
        Header_Get (ReqHeader r) ''X-Real-IP'' \<noteq> [] \<longrightarrow>
      getClientIP r = Header_Get (ReqHeader r) ''X-Real-IP'')
   \<and> (Header_Get (ReqHeader r) ''X-Forwarded-For'' = [] \<and>
        Header_Get (ReqHeader r) ''X-Real-IP'' = [] \<longrightarrow>
      getClientIP r = RemoteAddr r)"
proof (intro conjI impI allI)
  show "getClientIP r = Header_Get (ReqHeader r) ''X-Forwarded-For''"
    if "Header_Get (ReqHeader r) ''X-Forwarded-For'' \<noteq> []"
    using that by (simp add: getClientIP_def)
  show "getClientIP r = v"
    if "ReqHeader r ''X-Forwarded-For'' = Some (v # vs) \<and> v \<noteq> []" for v vs
    using that Header_Get_first[of "ReqHeader r" "''X-Forwarded-For''" v vs]
    by (simp add: getClientIP_def)
  show "getClientIP r = Header_Get (ReqHeader r) ''X-Real-IP''"
    if "Header_Get (ReqHeader r) ''X-Forwarded-For'' = [] \<and>
        Header_Get (ReqHeader r) ''X-Real-IP'' \<noteq> []"
    using that by (simp add: getClientIP_def)
  show "getClientIP r = RemoteAddr r"
    if "Header_Get (ReqHeader r) ''X-Forwarded-For'' = [] \<and>
        Header_Get (ReqHeader r) ''X-Real-IP'' = []"
    using that by (simp add: getClientIP_def)
qed

theorem getClientIP_precedence_witness:
  "getClientIP proxied_request = ''203.0.113.7, 10.0.0.1''
   \<and> getClientIP (proxied_request\<lparr>ReqHeader := [''X-Real-IP'' \<mapsto> [''198.51.100.2'']]\<rparr>)
       = ''198.51.100.2''
   \<and> getClientIP (proxied_request\<lparr>ReqHeader := Map.empty\<rparr>) = ''192.0.2.1:4711''"
  using getClientIP_precedence[of proxied_request]
    getClientIP_precedence[of "proxied_request\<lparr>ReqHeader := [''X-Real-IP'' \<mapsto> [''198.51.100.2'']]\<rparr>"]
    getClientIP_precedence[of "proxied_request\<lparr>ReqHeader := Map.empty\<rparr>"]
  by (simp add: proxied_request_def Header_Get_def)

section \<open>Health and readiness (C10)\<close>

lemma Healthz_up:
  "statusCode w = None \<Longrightarrow>
   Healthz None (w, logs) =
     (w\<lparr>header := (header w)(''Content-Type'' \<mapsto> [''application/json'']),
        statusCode := Some 200,
        body := body w @ [EncodedHealth \<lparr>Status = ''ok'', Database = ''ok''\<rparr>]\<rparr>, logs)"
  by (simp add: Healthz_def Health_def SetHeader_def Header_Set_def WriteHeader_def Write_def
      StatusOK_def)

lemma Healthz_down:
  "statusCode w = None \<Longrightarrow>
   Healthz (Some err) (w, logs) =
     (w\<lparr>header := (header w)(''Content-Type'' \<mapsto> [''application/json'']),
        statusCode := Some 503,
        body := body w @ [EncodedHealth \<lparr>Status = ''unhealthy'', Database = ''unhealthy''\<rparr>]\<rparr>,
      logs @ [\<lparr>lvl = ErrorLevel, msg = ''database health check failed'',
              logFields = [(''error'', ''database health check failed: '' @ Error err)]\<rparr>])"
  by (simp add: Healthz_def Health_def SetHeader_def Header_Set_def WriteHeader_def Write_def
      StatusOK_def StatusServiceUnavailable_def)

text \<open>
  C10. The readiness handler does exactly what the health handler does, on every state
  and for every outcome of the database ping: the same writer (status code, headers,
  body) and the same log. On a writer whose status is not yet written, a successful
  ping gives 200 with status and database "ok", a failed ping gives 503 with both
  "unhealthy"; the content type is JSON in both cases.
\<close>

theorem Ready_is_Healthz:
  "Ready ping s = Healthz ping s
   \<and> (statusCode w = None \<longrightarrow>
        statusCode (fst (Ready None (w, logs))) = Some 200
        \<and> body (fst (Ready None (w, logs))) =
            body w @ [EncodedHealth \<lparr>Status = ''ok'', Database = ''ok''\<rparr>]
        \<and> Header_Get (header (fst (Ready None (w, logs)))) ''Content-Type'' = ''application/json''
        \<and> statusCode (fst (Ready (Some err) (w, logs))) = Some 503
        \<and> body (fst (Ready (Some err) (w, logs))) =
            body w @ [EncodedHealth \<lparr>Status = ''unhealthy'', Database = ''unhealthy''\<rparr>]
        \<and> Header_Get (header (fst (Ready (Some err) (w, logs)))) ''Content-Type''
            = ''application/json'')"
proof -
  have same: "Ready ping s = Healthz ping s"
    by (simp add: Ready_def)
  have "statusCode (fst (Ready None (w, logs))) = Some 200
        \<and> body (fst (Ready None (w, logs))) =
            body w @ [EncodedHealth \<lparr>Status = ''ok'', Database = ''ok''\<rparr>]
        \<and> Header_Get (header (fst (Ready None (w, logs)))) ''Content-Type'' = ''application/json''
        \<and> statusCode (fst (Ready (Some err) (w, logs))) = Some 503
        \<and> body (fst (Ready (Some err) (w, logs))) =
            body w @ [EncodedHealth \<lparr>Status = ''unhealthy'', Database = ''unhealthy''\<rparr>]
        \<and> Header_Get (header (fst (Ready (Some err) (w, logs)))) ''Content-Type''
            = ''application/json''"
    if "statusCode w = None"
    using Healthz_up[OF that, of logs] Healthz_down[OF that, of err logs]
    by (simp add: Ready_def Header_Get_def)
  with same show ?thesis by blast
qed

theorem Ready_is_Healthz_witness:
  "Ready (Some (errorString ''connection refused'')) fresh
     = Healthz (Some (errorString ''connection refused'')) fresh
   \<and> statusCode (fst (Ready None fresh)) = Some 200
   \<and> statusCode (fst (Ready (Some (errorString ''connection refused'')) fresh)) = Some 503"
proof -
  have unwritten: "statusCode newResponseWriter = None"
    by (simp add: newResponseWriter_def)
  from Ready_is_Healthz[where ping = "Some (errorString ''connection refused'')" and s = fresh
      and w = newResponseWriter and err = "errorString ''connection refused''" and logs = "[]"]
    unwritten
  show ?thesis unfolding fresh_def by blast
qed

section \<open>Identity tokens (C2, C3, C4)\<close>

lemma float64_of_int_exact:
  assumes "\<bar>n\<bar> \<le> 2 ^ 53"
  shows "float64_of_int n = n"
proof -
  have top: "float64_of_int 9007199254740992 = 9007199254740992"
    by code_simp
  have bot: "float64_of_int (- 9007199254740992) = - 9007199254740992"
    by code_simp
  from assms have "\<bar>n\<bar> < 2 ^ 53 \<or> n = 9007199254740992 \<or> n = - 9007199254740992"
    by simp arith
  then consider "\<bar>n\<bar> < 2 ^ 53" | "n = 9007199254740992" | "n = - 9007199254740992"
    by blast
  then show ?thesis
  proof cases
    case 1
    then show ?thesis by (simp add: float64_of_int_def)
  next
    case 2
    with top show ?thesis by simp
  next
    case 3
    with bot show ?thesis by simp
  qed
qed

lemma GetSigningMethod_HMAC:
  "GetSigningMethod alg = Some (SigningMethodHMAC a) \<longleftrightarrow> a = alg \<and> alg \<in> set hmac_algs"
  by (simp add: GetSigningMethod_def) blast

lemma GetSigningMethod_other:
  "alg \<notin> set hmac_algs \<Longrightarrow> GetSigningMethod alg = Some m \<Longrightarrow> \<forall>a. m \<noteq> SigningMethodHMAC a"
  by (auto simp: GetSigningMethod_def split: if_splits)

lemma keyFunc_Inr:
  "keyFunc jwtSecret token = Inr key \<longleftrightarrow> (\<exists>a. TokMethod token = SigningMethodHMAC a) \<and> key = jwtSecret"
  by (auto simp: keyFunc_def split: SigningMethod.splits)

lemma keyFunc_refuses:
  "\<forall>a. TokMethod token \<noteq> SigningMethodHMAC a \<Longrightarrow> isl (keyFunc jwtSecret token)"
  by (cases "TokMethod token") (simp_all add: keyFunc_def)


lemma Parse_ok:
  assumes "map_of hdr ''alg'' = Some (JString alg)"
    and "alg \<in> set hmac_algs"
    and "verifyExpiresAt (decode_object cl) now = None"
  shows "Parse (Compact hdr cl (Sig alg jwtSecret hdr cl)) (keyFunc jwtSecret) now =
     Inr \<lparr>TokMethod = SigningMethodHMAC alg, TokHeader = decode_object hdr,
          TokClaims = MapClaims (decode_object cl), Valid = True\<rparr>"
proof -
  have m: "GetSigningMethod alg = Some (SigningMethodHMAC alg)"
    using assms(2) by (simp add: GetSigningMethod_HMAC)
  show ?thesis
    using assms(1,3) m by (simp add: Parse_def keyFunc_def Verify_def)
qed

lemma Parse_foreign_alg:
  assumes "map_of hdr ''alg'' = Some (JString alg)" and "alg \<notin> set hmac_algs"
  shows "Parse (Compact hdr cl sg) (keyFunc jwtSecret) now = Inl BadSignature"
proof (cases "GetSigningMethod alg")
  case None
  with assms show ?thesis by (simp add: Parse_def)
next
  case (Some m)
  from GetSigningMethod_other[OF assms(2) Some]
  have "isl (keyFunc jwtSecret \<lparr>TokMethod = m, TokHeader = decode_object hdr,
          TokClaims = MapClaims (decode_object cl), Valid = False\<rparr>)"
    by (intro keyFunc_refuses) simp
  with assms Some show ?thesis
    by (auto simp: Parse_def Let_def split: sum.splits)
qed

text \<open>
  C3. A token whose header names an algorithm outside the HMAC family (\<open>none\<close>
  included, and names the library does not know) is rejected by \<^verbatim>\<open>ValidateToken\<close>
  whatever its claims, its signature, the secret and the time: the key function
  refuses every method that is not an HMAC method, and the parser fails.
\<close>

theorem ValidateToken_rejects_foreign_alg:
  assumes "map_of hdr ''alg'' = Some (JString alg)" and "alg \<notin> set hmac_algs"
  shows "ValidateToken jwtSecret now (Compact hdr cl sg)
           = Inl (Wrapf ''failed to parse token'' BadSignature)
       \<and> (\<forall>token. (\<forall>a. TokMethod token \<noteq> SigningMethodHMAC a) \<longrightarrow> isl (keyFunc jwtSecret token))"
  using Parse_foreign_alg[OF assms] keyFunc_refuses
  by (simp add: ValidateToken_def)

theorem ValidateToken_rejects_foreign_alg_witness:
  "ValidateToken ''secret'' issued_at unsigned_token
     = Inl (Wrapf ''failed to parse token'' BadSignature)"
proof -
  have a: "map_of [(''alg'', JString ''none''), (''typ'', JString ''JWT'')] ''alg''
             = Some (JString ''none'')"
    by simp
  have b: "''none'' \<notin> set hmac_algs"
    by (simp add: hmac_algs_def)
  from ValidateToken_rejects_foreign_alg[OF a b] show ?thesis
    unfolding unsigned_token_def by blast
qed

lemma signed_by_iff:
  "signed_by key hdr cl sg \<longleftrightarrow>
     (\<exists>alg. alg \<in> set hmac_algs \<and> map_of hdr ''alg'' = Some (JString alg)
        \<and> sg = Sig alg key hdr cl)"
  by (auto simp: signed_by_def GetSigningMethod_HMAC Verify_def)

lemma Parse_signed:
  assumes "signed_by jwtSecret hdr cl sg"
  shows "\<exists>alg. Parse (Compact hdr cl sg) (keyFunc jwtSecret) now =
     (case verifyExpiresAt (decode_object cl) now of
        Some err \<Rightarrow> Inl err
      | None \<Rightarrow> Inr \<lparr>TokMethod = SigningMethodHMAC alg, TokHeader = decode_object hdr,
                      TokClaims = MapClaims (decode_object cl), Valid = True\<rparr>)"
proof -
  from assms obtain alg where alg: "alg \<in> set hmac_algs"
    "map_of hdr ''alg'' = Some (JString alg)" "sg = Sig alg jwtSecret hdr cl"
    unfolding signed_by_iff by blast
  then have m: "GetSigningMethod alg = Some (SigningMethodHMAC alg)"
    by (simp add: GetSigningMethod_HMAC)
  have "Parse (Compact hdr cl sg) (keyFunc jwtSecret) now =
     (case verifyExpiresAt (decode_object cl) now of
        Some err \<Rightarrow> Inl err
      | None \<Rightarrow> Inr \<lparr>TokMethod = SigningMethodHMAC alg, TokHeader = decode_object hdr,
                      TokClaims = MapClaims (decode_object cl), Valid = True\<rparr>)"
    using alg(2,3) m by (simp add: Parse_def keyFunc_def Verify_def split: option.splits)
  then show ?thesis ..
qed

lemma Parse_unsigned:
  assumes "\<not> signed_by jwtSecret hdr cl sg"
  shows "Parse (Compact hdr cl sg) (keyFunc jwtSecret) now = Inl BadSignature"
proof (cases "map_of hdr ''alg''")
  case None
  then show ?thesis by (simp add: Parse_def)
next
  case (Some j)
  show ?thesis
  proof (cases j)
    case (JString alg)
    show ?thesis
    proof (cases "alg \<in> set hmac_algs")
      case True
      then have m: "GetSigningMethod alg = Some (SigningMethodHMAC alg)"
        by (simp add: GetSigningMethod_HMAC)
      from assms True Some JString have "sg \<noteq> Sig alg jwtSecret hdr cl"
        unfolding signed_by_iff by blast
      with Some JString m show ?thesis
        by (simp add: Parse_def keyFunc_def Verify_def)
    next
      case False
      from Some JString have "map_of hdr ''alg'' = Some (JString alg)" by simp
      from Parse_foreign_alg[OF this False] show ?thesis .
    qed
  qed (use Some in \<open>simp_all add: Parse_def\<close>)
qed

text \<open>What \<^verbatim>\<open>ValidateToken\<close> returns for a token of three parts, check by check.\<close>

lemma ValidateToken_Compact:
  "ValidateToken jwtSecret now (Compact hdr cl sg) =
     (if \<not> signed_by jwtSecret hdr cl sg then Inl (Wrapf ''failed to parse token'' BadSignature)
      else case verifyExpiresAt (decode_object cl) now of
             Some err \<Rightarrow> Inl (Wrapf ''failed to parse token'' err)
           | None \<Rightarrow>
               (case decode_object cl ''sub'' of
                  Some (Float64 f) \<Rightarrow> Inr (int_of_float64 f)
                | _ \<Rightarrow> Inl (errorString ''invalid token subject'')))"
proof (cases "signed_by jwtSecret hdr cl sg")
  case False
  from Parse_unsigned[OF False] False show ?thesis
    by (simp add: ValidateToken_def)
next
  case True
  from Parse_signed[OF True, of now] obtain alg where
    "Parse (Compact hdr cl sg) (keyFunc jwtSecret) now =
     (case verifyExpiresAt (decode_object cl) now of
        Some err \<Rightarrow> Inl err
      | None \<Rightarrow> Inr \<lparr>TokMethod = SigningMethodHMAC alg, TokHeader = decode_object hdr,
                      TokClaims = MapClaims (decode_object cl), Valid = True\<rparr>)"
    by blast
  with True show ?thesis
    by (simp add: ValidateToken_def split: option.splits goval.splits)
qed

lemma verifyExpiresAt_cases:
  "verifyExpiresAt claims now =
     (case claims ''exp'' of
        None \<Rightarrow> None
      | Some (Float64 e) \<Rightarrow> (if e * Second \<le> now then Some Expired else None)
      | Some _ \<Rightarrow> Some MalformedToken)"
  by (simp add: verifyExpiresAt_def split: option.splits goval.splits)

text \<open>
  C4. \<^verbatim>\<open>ValidateToken\<close> fails with one of four errors, which are pairwise different
  values, and with each of them in exactly these cases: with the parser's
  \<open>MalformedToken\<close> for a string that is no token of three parts, and for a signed
  token whose \<open>exp\<close> is no number; with the parser's \<open>BadSignature\<close> for a token
  that is not signed for the secret, which is so when its header names no HMAC
  algorithm or its signature was not made with that algorithm and the secret over this
  header and these claims; with the parser's \<open>Expired\<close> for a signed token whose
  \<open>exp\<close> is not after the current instant; and with "invalid token subject" for a
  signed token that has not expired and whose \<open>sub\<close> is missing or no number. In the
  one remaining case, a signed token that has not expired and whose \<open>sub\<close> is a
  number, it returns that number as the user id. The two other errors in the code of
  \<^verbatim>\<open>ValidateToken\<close> ("invalid token", "invalid token claims") never occur.
\<close>

theorem ValidateToken_error_classes:
  "distinct [Wrapf ''failed to parse token'' MalformedToken,
             Wrapf ''failed to parse token'' BadSignature,
             Wrapf ''failed to parse token'' Expired,
             errorString ''invalid token subject'']
   \<and> (isl (ValidateToken jwtSecret now tokenString) \<longrightarrow>
        ValidateToken jwtSecret now tokenString \<in>
          Inl ` set [Wrapf ''failed to parse token'' MalformedToken,
                     Wrapf ''failed to parse token'' BadSignature,
                     Wrapf ''failed to parse token'' Expired,
                     errorString ''invalid token subject''])
   \<and> (ValidateToken jwtSecret now tokenString
          = Inl (Wrapf ''failed to parse token'' MalformedToken) \<longleftrightarrow>
        (\<exists>s. tokenString = Malformed s) \<or>
        (\<exists>hdr cl sg v. tokenString = Compact hdr cl sg \<and> signed_by jwtSecret hdr cl sg \<and>
           decode_object cl ''exp'' = Some v \<and> (\<forall>f. v \<noteq> Float64 f)))
   \<and> (ValidateToken jwtSecret now tokenString
          = Inl (Wrapf ''failed to parse token'' BadSignature) \<longleftrightarrow>
        (\<exists>hdr cl sg. tokenString = Compact hdr cl sg \<and> \<not> signed_by jwtSecret hdr cl sg))
   \<and> (ValidateToken jwtSecret now tokenString
          = Inl (Wrapf ''failed to parse token'' Expired) \<longleftrightarrow>
        (\<exists>hdr cl sg ex. tokenString = Compact hdr cl sg \<and> signed_by jwtSecret hdr cl sg \<and>
           decode_object cl ''exp'' = Some (Float64 ex) \<and> ex * Second \<le> now))
   \<and> (ValidateToken jwtSecret now tokenString
          = Inl (errorString ''invalid token subject'') \<longleftrightarrow>
        (\<exists>hdr cl sg. tokenString = Compact hdr cl sg \<and> signed_by jwtSecret hdr cl sg \<and>
           (decode_object cl ''exp'' = None \<or>
            (\<exists>ex. decode_object cl ''exp'' = Some (Float64 ex) \<and> now < ex * Second)) \<and>
           (\<forall>f. decode_object cl ''sub'' \<noteq> Some (Float64 f))))
   \<and> (\<forall>userID. ValidateToken jwtSecret now tokenString = Inr userID \<longleftrightarrow>
        (\<exists>hdr cl sg f. tokenString = Compact hdr cl sg \<and> signed_by jwtSecret hdr cl sg \<and>
           (decode_object cl ''exp'' = None \<or>
            (\<exists>ex. decode_object cl ''exp'' = Some (Float64 ex) \<and> now < ex * Second)) \<and>
           decode_object cl ''sub'' = Some (Float64 f) \<and> userID = int_of_float64 f))"
proof (cases tokenString)
  case (Malformed s)
  have "ValidateToken jwtSecret now (Malformed s)
      = Inl (Wrapf ''failed to parse token'' MalformedToken)"
    by (simp add: ValidateToken_def Parse_def)
  with Malformed show ?thesis by simp
next
  case (Compact hdr cl sg)
  let ?v = "ValidateToken jwtSecret now (Compact hdr cl sg)"
  show ?thesis
  proof (cases "signed_by jwtSecret hdr cl sg")
    case False
    then have "?v = Inl (Wrapf ''failed to parse token'' BadSignature)"
      by (simp add: ValidateToken_Compact)
    with Compact False show ?thesis by simp
  next
    case True
    note signed = True
    consider (absent) "decode_object cl ''exp'' = None"
      | (live) ex where "decode_object cl ''exp'' = Some (Float64 ex)" "now < ex * Second"
      | (expired) ex where "decode_object cl ''exp'' = Some (Float64 ex)" "ex * Second \<le> now"
      | (mistyped) v where "decode_object cl ''exp'' = Some v" "\<forall>f. v \<noteq> Float64 f"
    proof (cases "decode_object cl ''exp''")
      case None
      then show ?thesis by (rule absent)
    next
      case (Some v)
      show ?thesis
      proof (cases "\<exists>f. v = Float64 f")
        case True
        then obtain ex where "v = Float64 ex" by blast
        with Some live[of ex] expired[of ex] show ?thesis
          by (cases "now < ex * Second") simp_all
      next
        case False
        with Some mistyped[of v] show ?thesis by simp
      qed
    qed
    then show ?thesis
    proof cases
      case mistyped
      then have "verifyExpiresAt (decode_object cl) now = Some MalformedToken"
        by (cases v) (simp_all add: verifyExpiresAt_cases)
      with signed have "?v = Inl (Wrapf ''failed to parse token'' MalformedToken)"
        by (simp add: ValidateToken_Compact)
      with Compact signed mistyped show ?thesis by simp
    next
      case expired
      then have "verifyExpiresAt (decode_object cl) now = Some Expired"
        by (simp add: verifyExpiresAt_cases)
      with signed have "?v = Inl (Wrapf ''failed to parse token'' Expired)"
        by (simp add: ValidateToken_Compact)
      with Compact signed expired show ?thesis by simp
    next
      case absent
      then have ok: "verifyExpiresAt (decode_object cl) now = None"
        by (simp add: verifyExpiresAt_cases)
      show ?thesis
      proof (cases "\<exists>f. decode_object cl ''sub'' = Some (Float64 f)")
        case True
        then obtain f where f: "decode_object cl ''sub'' = Some (Float64 f)" by blast
        with signed ok have "?v = Inr (int_of_float64 f)"
          by (simp add: ValidateToken_Compact)
        with Compact signed absent f show ?thesis by auto
      next
        case False
        with signed ok have "?v = Inl (errorString ''invalid token subject'')"
          by (simp add: ValidateToken_Compact split: option.splits goval.splits)
        with Compact signed absent False show ?thesis by simp
      qed
    next
      case live
      then have ok: "verifyExpiresAt (decode_object cl) now = None"
        by (simp add: verifyExpiresAt_cases)
      show ?thesis
      proof (cases "\<exists>f. decode_object cl ''sub'' = Some (Float64 f)")
        case True
        then obtain f where f: "decode_object cl ''sub'' = Some (Float64 f)" by blast
        with signed ok have "?v = Inr (int_of_float64 f)"
          by (simp add: ValidateToken_Compact)
        with Compact signed live f show ?thesis by auto
      next
        case False
        with signed ok have "?v = Inl (errorString ''invalid token subject'')"
          by (simp add: ValidateToken_Compact split: option.splits goval.splits)
        with Compact signed live False show ?thesis by simp
      qed
    qed
  qed
qed


theorem ValidateToken_error_classes_witness:
  "ValidateToken ''secret'' 1700090000000000000 token_of_7
     = Inl (Wrapf ''failed to parse token'' Expired)
   \<and> ValidateToken ''secret'' issued_at token_without_sub
       = Inl (errorString ''invalid token subject'')"
proof -
  let ?hdr = "[(''alg'', JString ''HS256''), (''typ'', JString ''JWT'')]"
  let ?cl = "[(''exp'', JNumber 1700086400), (''iat'', JNumber 1700000000),
              (''sub'', JNumber 7)]"
  let ?cl' = "[(''exp'', JNumber 1700086400)]"
  let ?now = "1700090000000000000 :: Time"
  have signed: "signed_by ''secret'' ?hdr c (Sig ''HS256'' ''secret'' ?hdr c)" for c
    by (simp add: signed_by_def GetSigningMethod_def hmac_algs_def Verify_def)
  have exp: "decode_object ?cl ''exp'' = Some (Float64 1700086400)"
    "decode_object ?cl' ''exp'' = Some (Float64 1700086400)"
    by (simp_all add: decode_object_def float64_of_int_def)
  have nosub: "\<forall>f. decode_object ?cl' ''sub'' \<noteq> Some (Float64 f)"
    by (simp add: decode_object_def)
  have late: "1700086400 * Second \<le> ?now"
    by (simp add: Second_def)
  have early: "issued_at < 1700086400 * Second"
    by (simp add: issued_at_def Second_def)
  have cause: "\<exists>hdr cl sg ex. token_of_7 = Compact hdr cl sg \<and> signed_by ''secret'' hdr cl sg
      \<and> decode_object cl ''exp'' = Some (Float64 ex) \<and> ex * Second \<le> ?now"
    unfolding token_of_7_def using signed exp(1) late by blast
  have cause': "\<exists>hdr cl sg. token_without_sub = Compact hdr cl sg
      \<and> signed_by ''secret'' hdr cl sg
      \<and> (decode_object cl ''exp'' = None \<or>
           (\<exists>ex. decode_object cl ''exp'' = Some (Float64 ex) \<and> issued_at < ex * Second))
      \<and> (\<forall>f. decode_object cl ''sub'' \<noteq> Some (Float64 f))"
    unfolding token_without_sub_def using signed exp(2) early nosub by blast
  from ValidateToken_error_classes[of "''secret''" ?now token_of_7]
  have "ValidateToken ''secret'' ?now token_of_7 = Inl (Wrapf ''failed to parse token'' Expired)
      \<longleftrightarrow> (\<exists>hdr cl sg ex. token_of_7 = Compact hdr cl sg \<and> signed_by ''secret'' hdr cl sg
            \<and> decode_object cl ''exp'' = Some (Float64 ex) \<and> ex * Second \<le> ?now)"
    by (elim conjE)
  moreover from ValidateToken_error_classes[of "''secret''" issued_at token_without_sub]
  have "ValidateToken ''secret'' issued_at token_without_sub
        = Inl (errorString ''invalid token subject'')
      \<longleftrightarrow> (\<exists>hdr cl sg. token_without_sub = Compact hdr cl sg
            \<and> signed_by ''secret'' hdr cl sg
            \<and> (decode_object cl ''exp'' = None \<or>
                 (\<exists>ex. decode_object cl ''exp'' = Some (Float64 ex) \<and> issued_at < ex * Second))
            \<and> (\<forall>f. decode_object cl ''sub'' \<noteq> Some (Float64 f)))"
    by (elim conjE)
  ultimately show ?thesis using cause cause' by simp
qed

text \<open>The token that \<^verbatim>\<open>generateToken\<close> returns.\<close>

lemma generateToken_eq:
  "generateToken jwtSecret now userID =
     (let hdr = [(''alg'', JString ''HS256''), (''typ'', JString ''JWT'')];
          cl = [(''exp'', JNumber (Unix (now + 24 * Hour))),
                (''iat'', JNumber (Unix now)),
                (''sub'', JNumber userID)]
      in Inr (Compact hdr cl (Sig ''HS256'' jwtSecret hdr cl)))"
proof -
  have "GetSigningMethod ''HS256'' = Some (SigningMethodHMAC ''HS256'')"
    by (simp add: GetSigningMethod_def hmac_algs_def)
  then show ?thesis
    by (simp add: generateToken_def SignedString_def Let_def)
qed

lemma expiry_after_issue:
  "issued + 24 * Hour - Second < Unix (issued + 24 * Hour) * Second"
proof -
  have "(issued + 24 * Hour) mod Second < Second"
    by (simp add: Second_def)
  moreover have "Unix (issued + 24 * Hour) * Second
      = issued + 24 * Hour - (issued + 24 * Hour) mod Second"
    by (simp add: Unix_def minus_mod_eq_div_mult)
  ultimately show ?thesis by linarith
qed

lemma expiry_bounds:
  assumes "0 \<le> issued" and "issued < 2 ^ 62"
  shows "\<bar>Unix (issued + 24 * Hour)\<bar> \<le> 2 ^ 53"
proof -
  have "0 \<le> Unix (issued + 24 * Hour)"
    using assms(1) by (simp add: Unix_def Hour_def Second_def pos_imp_zdiv_nonneg_iff)
  moreover have "Unix (issued + 24 * Hour) \<le> (2 ^ 62 + 24 * Hour) div Second"
    using assms(2) by (simp add: Unix_def Hour_def Second_def zdiv_mono1)
  moreover have "(2 ^ 62 + 24 * Hour) div Second \<le> (2 ^ 53 :: int)"
    by (simp add: Hour_def Second_def)
  ultimately show ?thesis by linarith
qed

text \<open>
  For a subject of magnitude at most \<open>2 ^ 53\<close>, issued at an instant between 1970 and
  \<open>2 ^ 62\<close> nanoseconds later, the token validates to the same subject at the instant
  of issue and at every later instant up to a second before the 24 hours have passed:
  the subject comes back through a \<^verbatim>\<open>float64\<close>, which holds every integer up to
  \<open>2 ^ 53\<close> exactly.
\<close>

lemma issue_then_validate_roundtrip:
  assumes sub: "\<bar>userID\<bar> \<le> 2 ^ 53"
    and clock: "0 \<le> issued" "issued < 2 ^ 62"
    and fresh: "issued \<le> now" "now \<le> issued + 24 * Hour - Second"
  shows "issue_then_validate jwtSecret issued now userID = Inr userID"
proof -
  let ?hdr = "[(''alg'', JString ''HS256''), (''typ'', JString ''JWT'')]"
  let ?exp = "Unix (issued + 24 * Hour)"
  let ?cl = "[(''exp'', JNumber ?exp), (''iat'', JNumber (Unix issued)), (''sub'', JNumber userID)]"
  have gen: "generateToken jwtSecret issued userID
      = Inr (Compact ?hdr ?cl (Sig ''HS256'' jwtSecret ?hdr ?cl))"
    by (simp add: generateToken_eq Let_def)
  have exp: "decode_object ?cl ''exp'' = Some (Float64 ?exp)"
    using float64_of_int_exact[OF expiry_bounds[OF clock]] by (simp add: decode_object_def)
  have subj: "decode_object ?cl ''sub'' = Some (Float64 userID)"
    using float64_of_int_exact[OF sub] by (simp add: decode_object_def)
  have "now < ?exp * Second"
    using fresh(2) expiry_after_issue[of issued] by linarith
  with exp have live: "verifyExpiresAt (decode_object ?cl) now = None"
    by (simp add: verifyExpiresAt_def)
  have alg: "map_of ?hdr ''alg'' = Some (JString ''HS256'')" by simp
  have hs: "''HS256'' \<in> set hmac_algs" by (simp add: hmac_algs_def)
  have fits: "int_of_float64 userID = userID"
  proof -
    from sub have "- (2 ^ 63) \<le> userID \<and> userID < 2 ^ 63" by simp arith
    then show ?thesis by (simp add: int_of_float64_def)
  qed
  have "ValidateToken jwtSecret now (Compact ?hdr ?cl (Sig ''HS256'' jwtSecret ?hdr ?cl))
      = Inr userID"
    unfolding ValidateToken_def Parse_ok[OF alg hs live]
    using subj fits by simp
  with gen show ?thesis by (simp add: issue_then_validate_def)
qed

lemma issue_then_validate_roundtrip_example:
  "issue_then_validate ''secret'' issued_at issued_at 7 = Inr 7"
  using issue_then_validate_roundtrip[of 7 issued_at issued_at "''secret''"]
  by (simp add: issued_at_def Hour_def Second_def)

text \<open>
  C2. Validating a token right after issuing it does not return every subject: for
  the user id \<open>2 ^ 53 + 1\<close>, issued and validated at the same instant,
  \<^verbatim>\<open>ValidateToken\<close> succeeds and returns \<open>2 ^ 53\<close>. The token carries the id
  exactly; the parser reads the number into a \<^verbatim>\<open>float64\<close>, the nearest one is
  \<open>2 ^ 53\<close>, and \<^verbatim>\<open>ValidateToken\<close> converts that back.
\<close>

theorem issue_then_validate_loses_subject:
  "issue_then_validate ''secret'' issued_at issued_at 9007199254740993 = Inr 9007199254740992"
  by code_simp

section \<open>Admission (C1)\<close>

lemma tokensFromDuration_nonneg: "0 \<le> d \<Longrightarrow> 0 \<le> tokensFromDuration r d"
  by (simp add: tokensFromDuration_def Second_def)

lemma tokensFromDuration_add:
  "tokensFromDuration r a + tokensFromDuration r b = tokensFromDuration r (a + b)"
  by (simp add: tokensFromDuration_def Second_def algebra_simps add_divide_distrib)

lemma tokensFromDuration_less_1: "d * r < Second \<Longrightarrow> tokensFromDuration r d < 1"
proof -
  assume "d * r < Second"
  then have "(of_int (d * r) :: rat) < of_int Second"
    by (simp only: of_int_less_iff)
  then show ?thesis
    by (simp add: tokensFromDuration_def Second_def)
qed

lemma available_le_capacity: "available b t \<le> of_int (capacity b)"
  by (simp add: available_def Let_def)

lemma Allow_fst: "fst (Allow t b) \<longleftrightarrow> 1 \<le> available b t"
  by (simp add: Allow_def Let_def)

lemma Allow_snd:
  "snd (Allow t b) =
     (if 1 \<le> available b t then b\<lparr>tokens := available b t - 1, last_refill := t\<rparr> else b)"
  by (simp add: Allow_def Let_def)

lemma allow_known:
  "limiters rl ip = Some b \<Longrightarrow>
     allow ip t rl = (fst (Allow t b), put ip (snd (Allow t b)) rl)"
  by (simp add: allow_def getLimiter_def split: prod.splits)

lemma allow_new:
  "limiters rl ip = None \<Longrightarrow>
     allow ip t rl =
       (fst (Allow t (NewLimiter (rps rl) (burst rl))),
        put ip (snd (Allow t (NewLimiter (rps rl) (burst rl)))) rl)"
  by (simp add: allow_def getLimiter_def put_def Let_def split: prod.splits)

lemma put_simps:
  "limiters (put ip b rl) ip = Some b" "rps (put ip b rl) = rps rl" "burst (put ip b rl) = burst rl"
  by (simp_all add: put_def)

text \<open>A bucket that cannot hold a whole token admits nothing.\<close>

lemma allows_no_capacity:
  "limiters rl ip = Some b \<Longrightarrow> capacity b < 1 \<Longrightarrow>
     allows ip (map Check ts) rl = replicate (length ts) False"
proof (induction ts arbitrary: rl)
  case Nil
  then show ?case by simp
next
  case (Cons t ts)
  have "available b t \<le> of_int (capacity b)" by (rule available_le_capacity)
  also have "\<dots> < 1" using Cons.prems(2) by simp
  finally have no: "\<not> 1 \<le> available b t" by simp
  then have step: "allow ip t rl = (False, put ip b rl)"
    using Cons.prems(1) by (simp add: allow_known Allow_fst Allow_snd)
  show ?case
    using Cons.IH[of "put ip b rl"] Cons.prems(2) step by (simp add: put_simps)
qed

text \<open>
  After \<open>j\<close> admissions since the instant \<open>t1\<close>, the bucket holds at least
  \<open>burst - j\<close> tokens and at most what was refilled since \<open>t1\<close> more. While the
  calls stay within one refill period of \<open>t1\<close>, the next \<open>burst - j\<close> calls are
  admitted and the later ones are denied.
\<close>

lemma allows_window:
  assumes "limiters rl ip = Some b"
    and "capacity b = burst rl" and "refill b = rps rl"
    and "1 \<le> j" and "j \<le> burst rl"
    and "of_int (burst rl - j) \<le> tokens b"
    and "tokens b \<le> of_int (burst rl - j) + tokensFromDuration (rps rl) (last_refill b - t1)"
    and "t1 \<le> last_refill b" and "last_refill b \<le> tcur"
    and "sorted (tcur # ts)"
    and "\<forall>t\<in>set ts. (t - t1) * rps rl < Second"
  shows "allows ip (map Check ts) rl = map (\<lambda>i. int i < burst rl - j) [0 ..< length ts]"
  using assms
proof (induction ts arbitrary: rl b j tcur)
  case Nil
  then show ?case by simp
next
  case (Cons t ts)
  let ?r = "rps rl" and ?B = "burst rl"
  from Cons.prems(10) have t: "tcur \<le> t" and srt: "sorted (t # ts)" by auto
  from Cons.prems(11) have win: "(t - t1) * ?r < Second"
    and wins: "\<forall>u\<in>set ts. (u - t1) * ?r < Second" by auto
  from t Cons.prems(9) have el: "max 0 (t - last_refill b) = t - last_refill b" by simp
  let ?filled = "tokens b + tokensFromDuration ?r (t - last_refill b)"
  have av: "available b t = min (of_int ?B) ?filled"
    using el Cons.prems(2,3) by (simp add: available_def Let_def)
  have gain: "0 \<le> tokensFromDuration ?r (t - last_refill b)"
    using t Cons.prems(9) by (intro tokensFromDuration_nonneg) simp
  have lo: "of_int (?B - j) \<le> available b t"
    unfolding av using Cons.prems(4,6) gain by simp
  have "?filled \<le> of_int (?B - j) + (tokensFromDuration ?r (last_refill b - t1)
            + tokensFromDuration ?r (t - last_refill b))"
    using Cons.prems(7) by simp
  also have "\<dots> = of_int (?B - j) + tokensFromDuration ?r (t - t1)"
    by (simp add: tokensFromDuration_add)
  finally have hi: "available b t \<le> of_int (?B - j) + tokensFromDuration ?r (t - t1)"
    unfolding av by simp
  have lt1: "tokensFromDuration ?r (t - t1) < 1"
    using win by (rule tokensFromDuration_less_1)
  show ?case
  proof (cases "j < ?B")
    case True
    then have "(1 :: rat) \<le> of_int (?B - j)" by simp
    with lo have yes: "1 \<le> available b t" by linarith
    let ?b' = "b\<lparr>tokens := available b t - 1, last_refill := t\<rparr>"
    have step: "allow ip t rl = (True, put ip ?b' rl)"
      using Cons.prems(1) yes by (simp add: allow_known Allow_fst Allow_snd)
    have rest: "allows ip (map Check ts) (put ip ?b' rl)
        = map (\<lambda>i. int i < burst (put ip ?b' rl) - (j + 1)) [0 ..< length ts]"
    proof (rule Cons.IH[where b = ?b' and tcur = t])
      show "limiters (put ip ?b' rl) ip = Some ?b'" by (simp add: put_simps)
      show "capacity ?b' = burst (put ip ?b' rl)" using Cons.prems(2) by (simp add: put_simps)
      show "refill ?b' = rps (put ip ?b' rl)" using Cons.prems(3) by (simp add: put_simps)
      show "1 \<le> j + 1" using Cons.prems(4) by simp
      show "j + 1 \<le> burst (put ip ?b' rl)" using True by (simp add: put_simps)
      show "of_int (burst (put ip ?b' rl) - (j + 1)) \<le> tokens ?b'"
        using lo by (simp add: put_simps)
      show "tokens ?b' \<le> of_int (burst (put ip ?b' rl) - (j + 1))
              + tokensFromDuration (rps (put ip ?b' rl)) (last_refill ?b' - t1)"
        using hi by (simp add: put_simps)
      show "t1 \<le> last_refill ?b'" using Cons.prems(8,9) t by simp
      show "last_refill ?b' \<le> t" by simp
      show "sorted (t # ts)" by (rule srt)
      show "\<forall>u\<in>set ts. (u - t1) * rps (put ip ?b' rl) < Second"
        using wins by (simp add: put_simps)
    qed
    have "map (\<lambda>i. int i < ?B - j) [0 ..< length (t # ts)]
        = True # map (\<lambda>i. int i < ?B - (j + 1)) [0 ..< length ts]"
      using True by (simp add: map_upt_Suc del: upt_Suc) (auto simp: algebra_simps)
    with step rest show ?thesis by (simp add: put_simps)
  next
    case False
    with Cons.prems(5) have full: "j = ?B" by simp
    with hi lt1 have no: "\<not> 1 \<le> available b t" by simp
    have step: "allow ip t rl = (False, put ip b rl)"
      using Cons.prems(1) no by (simp add: allow_known Allow_fst Allow_snd)
    have rest: "allows ip (map Check ts) (put ip b rl)
        = map (\<lambda>i. int i < burst (put ip b rl) - j) [0 ..< length ts]"
    proof (rule Cons.IH[where b = b and tcur = t])
      show "limiters (put ip b rl) ip = Some b" by (simp add: put_simps)
      show "last_refill b \<le> t" using Cons.prems(9) t by simp
      show "sorted (t # ts)" by (rule srt)
    qed (use Cons.prems wins in \<open>simp_all add: put_simps\<close>)
    have "map (\<lambda>i. int i < ?B - j) [0 ..< length (t # ts)]
        = False # map (\<lambda>i. int i < ?B - j) [0 ..< length ts]"
      using full by (simp add: map_upt_Suc del: upt_Suc)
    with step rest show ?thesis by (simp add: put_simps)
  qed
qed

lemma available_new:
  "available (NewLimiter r b) t = of_int b"
proof -
  have "0 \<le> tokensFromDuration r (max 0 (t - 0))"
    by (intro tokensFromDuration_nonneg) simp
  then show ?thesis
    by (simp add: available_def NewLimiter_def Let_def)
qed

text \<open>
  C1, as amended. For every identity that has no bucket yet: of consecutive admission
  checks at instants \<open>t1 \<le> \<dots>\<close> that all lie within one refill period after the
  first (\<open>(t - t1) * rps\<close> below one second), with no round of the cleanup between
  them, check number \<open>i + 1\<close> is admitted exactly when \<open>i < burst\<close>. So the first
  \<open>burst\<close> checks are all admitted, and check \<open>burst + 1\<close> and those after it are
  denied.
\<close>

theorem allows_up_to_burst:
  assumes fresh: "limiters rl ip = None"
    and order: "sorted (t1 # ts)"
    and period: "\<forall>t\<in>set ts. (t - t1) * rps rl < Second"
  shows "allows ip (map Check (t1 # ts)) rl
           = map (\<lambda>i. int i < burst rl) [0 ..< Suc (length ts)]"
proof (cases "burst rl \<le> 0")
  case True
  let ?b = "NewLimiter (rps rl) (burst rl)"
  have "available ?b t1 = of_int (burst rl)"
    by (simp add: available_new)
  with True have "\<not> 1 \<le> available ?b t1" by simp
  then have step: "allow ip t1 rl = (False, put ip ?b rl)"
    using fresh by (simp add: allow_new Allow_fst Allow_snd)
  have "allows ip (map Check ts) (put ip ?b rl) = replicate (length ts) False"
    using True by (intro allows_no_capacity[where b = ?b]) (simp_all add: put_simps NewLimiter_def)
  moreover have "map (\<lambda>i. int i < burst rl) [0 ..< Suc (length ts)]
      = replicate (Suc (length ts)) False"
    using True by (simp add: map_replicate_const del: upt_Suc replicate_Suc)
  ultimately show ?thesis using step by simp
next
  case False
  then have pos: "1 \<le> burst rl" by simp
  let ?b = "NewLimiter (rps rl) (burst rl)"
  let ?b' = "?b\<lparr>tokens := of_int (burst rl) - 1, last_refill := t1\<rparr>"
  have av: "available ?b t1 = of_int (burst rl)"
    by (simp add: available_new)
  then have step: "allow ip t1 rl = (True, put ip ?b' rl)"
    using fresh pos by (simp add: allow_new Allow_fst Allow_snd)
  have rest: "allows ip (map Check ts) (put ip ?b' rl)
      = map (\<lambda>i. int i < burst (put ip ?b' rl) - 1) [0 ..< length ts]"
  proof (rule allows_window[where b = ?b' and tcur = t1 and ?t1.0 = t1])
    show "limiters (put ip ?b' rl) ip = Some ?b'" by (simp add: put_simps)
    show "tokens ?b' \<le> of_int (burst (put ip ?b' rl) - 1)
            + tokensFromDuration (rps (put ip ?b' rl)) (last_refill ?b' - t1)"
      by (simp add: put_simps tokensFromDuration_def)
    show "sorted (t1 # ts)" by (rule order)
    show "\<forall>t\<in>set ts. (t - t1) * rps (put ip ?b' rl) < Second"
      using period by (simp add: put_simps)
  qed (use pos in \<open>simp_all add: put_simps NewLimiter_def\<close>)
  have "map (\<lambda>i. int i < burst rl) [0 ..< Suc (length ts)]
      = True # map (\<lambda>i. int i < burst rl - 1) [0 ..< length ts]"
    using pos by (simp add: map_upt_Suc del: upt_Suc) (auto simp: algebra_simps)
  with step rest show ?thesis by (simp add: put_simps)
qed

theorem allows_up_to_burst_witness:
  "allows ''203.0.113.7'' [Check 0, Check 1000000, Check 2000000, Check 3000000]
     (NewRateLimiter 10 3)
     = [True, True, True, False]"
  using allows_up_to_burst[of "NewRateLimiter 10 3" "''203.0.113.7''" 0 "[1000000, 2000000, 3000000]"]
  by (simp add: NewRateLimiter_def Second_def upt_conv_Cons)

text \<open>
  With a capacity of 2 and a refill period of 100 milliseconds, three checks one
  millisecond apart are all admitted when a round of the cleanup falls between the
  second and the third: the third check finds no bucket and gets a full one, so check
  \<open>burst + 1\<close> does not fail.
\<close>

theorem allows_counterexample:
  "allows ''203.0.113.7'' [Check 0, Check 1000000, Tick, Check 2000000] (NewRateLimiter 10 2)
     = [True, True, True]"
  by code_simp

section \<open>Denied requests (C6)\<close>

lemma RateLimitMiddleware_denied:
  assumes "getLimiter (getClientIP r) limiter = (b, limiter')"
    and "\<not> fst (Allow (atAllow clock) b)"
  shows "RateLimitMiddleware String next clock r (limiter, w, logs) =
     (let reservation = fst (Reserve (atReserve clock) b);
          b' = Cancel (atCancel clock) reservation (snd (Reserve (atReserve clock) b));
          retry = (if \<not> OK reservation then ''60''
                   else String (Delay (atDelay clock) reservation))
      in (put (getClientIP r) b' limiter',
          Write (Raw rate_limit_body)
            (WriteHeader StatusTooManyRequests
              (SetHeader ''Content-Type'' ''application/json''
                (SetHeader ''Retry-After'' retry w))),
          logs @ [\<lparr>lvl = WarnLevel, msg = ''rate limit exceeded'',
                   logFields = [(''ip'', getClientIP r), (''path'', Path r),
                                (''method'', Method r)]\<rparr>]))"
proof -
  from assms(2) have same: "Allow (atAllow clock) b = (False, b)"
    by (simp add: Allow_def Let_def split: if_splits)
  show ?thesis
    unfolding RateLimitMiddleware_def rate_limit_body_def
    by (simp add: assms(1) same Let_def split: prod.splits)
qed

lemma denied_writer:
  assumes "statusCode w = None"
  shows "Write (Raw rate_limit_body)
            (WriteHeader StatusTooManyRequests
              (SetHeader ''Content-Type'' ''application/json''
                (SetHeader ''Retry-After'' retry w)))
     = w\<lparr>header := (header w)(''Retry-After'' \<mapsto> [retry],
                                ''Content-Type'' \<mapsto> [''application/json'']),
         statusCode := Some 429,
         body := body w @ [Raw rate_limit_body]\<rparr>"
  using assms
  by (simp add: Write_def WriteHeader_def SetHeader_def Header_Set_def
      StatusTooManyRequests_def)

lemma Reserve_OK: "OK (fst (Reserve t b)) \<longleftrightarrow> 1 \<le> capacity b"
  by (simp add: Reserve_def Let_def)

text \<open>A bucket that cannot hold a whole token: no reservation, and nothing changes.\<close>

lemma Reserve_no_capacity:
  assumes "capacity b < 1"
  shows "Cancel t' (fst (Reserve t b)) (snd (Reserve t b)) = b" and "\<not> fst (Allow u b)"
proof -
  show "Cancel t' (fst (Reserve t b)) (snd (Reserve t b)) = b"
    using assms by (simp add: Reserve_def Cancel_def Let_def)
  have "available b u \<le> of_int (capacity b)" by (rule available_le_capacity)
  also have "\<dots> < 1" using assms by simp
  finally show "\<not> fst (Allow u b)" by (simp add: Allow_fst)
qed

lemma Reserve_timeToAct:
  assumes "1 \<le> capacity b"
  shows "timeToAct (fst (Reserve t b)) =
     t + (if available b t < 1 then durationFromTokens (refill b) (1 - available b t) else 0)"
  using assms by (simp add: Reserve_def Let_def)

text \<open>
  The bucket after a reservation at \<open>t\<close> that is cancelled at \<open>t'\<close>, not later than
  its time: from then on it admits a request at no instant before \<open>timeToAct\<close> and,
  when it is refilled at all, at every instant from \<open>timeToAct\<close> on.
\<close>

lemma Cancel_Reserve_next:
  assumes cap: "1 \<le> capacity b"
    and order: "t \<le> t'"
    and intime: "t' \<le> timeToAct (fst (Reserve t b))"
    and later: "t' \<le> u"
  shows "(fst (Allow u (Cancel t' (fst (Reserve t b)) (snd (Reserve t b))))
            \<longrightarrow> timeToAct (fst (Reserve t b)) \<le> u)
       \<and> (0 < refill b \<and> timeToAct (fst (Reserve t b)) \<le> u
            \<longrightarrow> fst (Allow u (Cancel t' (fst (Reserve t b)) (snd (Reserve t b)))))"
proof -
  let ?r = "refill b" and ?C = "of_int (capacity b) :: rat"
  let ?res = "fst (Reserve t b)"
  define L where "L = available b t - 1"
  define g where "g = tokensFromDuration ?r (t' - t)"
  define h where "h = tokensFromDuration ?r (u - t')"
  define T where "T = min ?C (min ?C (L + g) + 1)"
  let ?b' = "Cancel t' ?res (snd (Reserve t b))"
  from cap have C1: "1 \<le> ?C" by simp
  have LC: "L \<le> ?C - 1"
    using available_le_capacity[of b t] by (simp add: L_def)
  have g0: "0 \<le> g" unfolding g_def using order by (intro tokensFromDuration_nonneg) simp
  have h0: "0 \<le> h" unfolding h_def using later by (intro tokensFromDuration_nonneg) simp
  have snd_res: "snd (Reserve t b) = b\<lparr>tokens := L, last_refill := t\<rparr>"
    using cap by (simp add: Reserve_def Let_def L_def)
  have okres: "OK ?res" using cap by (simp add: Reserve_OK)
  have av': "available (b\<lparr>tokens := L, last_refill := t\<rparr>) t' = min ?C (L + g)"
    using order by (simp add: available_def Let_def g_def)
  have b': "?b' = b\<lparr>tokens := T, last_refill := t'\<rparr>"
    using okres intime unfolding snd_res
    by (simp add: Cancel_def av' T_def)
  have "available ?b' u = min ?C (T + h)"
    unfolding b' using later by (simp add: available_def Let_def h_def)
  with C1 have allow_iff: "fst (Allow u ?b') \<longleftrightarrow> 1 \<le> T + h"
    by (simp add: Allow_fst)
  have tta: "timeToAct ?res = t + (if L < 0 then durationFromTokens ?r (- L) else 0)"
    using cap by (simp add: Reserve_def Let_def L_def)
  show ?thesis
  proof (cases "L < 0")
    case False
    with tta have now: "timeToAct ?res = t" by simp
    with intime order have "t' = t" by simp
    then have "g = 0" by (simp add: g_def tokensFromDuration_def)
    with LC have "T = L + 1" by (simp add: T_def min_def)
    with False have "1 \<le> T" by simp
    with now show ?thesis
      using allow_iff h0 order later by simp
  next
    case True
    show ?thesis
    proof (cases "?r \<le> 0")
      case off: True
      then have "g = 0" "h = 0" by (simp_all add: g_def h_def tokensFromDuration_def)
      with True LC have "T + h < 1" by (simp add: T_def min_def)
      with allow_iff off show ?thesis by simp
    next
      case on: False
      then have rpos: "0 < ?r" by simp
      have tta': "timeToAct ?res = t + \<lceil>- L * of_int Second / of_int ?r\<rceil>"
        using tta True on by (simp add: durationFromTokens_def)
      have gval: "g = of_int (t' - t) * of_int ?r / of_int Second"
        using on by (simp add: g_def tokensFromDuration_def)
      have hval: "h = of_int (u - t') * of_int ?r / of_int Second"
        using on by (simp add: h_def tokensFromDuration_def)
      have reach: "0 \<le> L + of_int (v - t) * of_int ?r / of_int Second
          \<longleftrightarrow> timeToAct ?res \<le> v" for v
      proof -
        have "0 \<le> L + of_int (v - t) * of_int ?r / of_int Second
            \<longleftrightarrow> - L * of_int Second / of_int ?r \<le> of_int (v - t)"
          using rpos by (simp add: Second_def field_simps)
        also have "\<dots> \<longleftrightarrow> \<lceil>- L * of_int Second / of_int ?r\<rceil> \<le> v - t"
          by (simp only: ceiling_le_iff)
        finally show ?thesis unfolding tta' by linarith
      qed
      have sum: "L + g + h = L + of_int (u - t) * of_int ?r / of_int Second"
        unfolding gval hval by (simp add: Second_def field_simps)
      show ?thesis
      proof (cases "L + g \<le> ?C - 1")
        case True
        then have "T = L + g + 1" by (simp add: T_def min_def)
        then have "1 \<le> T + h \<longleftrightarrow> 0 \<le> L + g + h" by linarith
        also have "\<dots> \<longleftrightarrow> timeToAct ?res \<le> u"
          unfolding sum by (rule reach)
        finally have "fst (Allow u ?b') \<longleftrightarrow> timeToAct ?res \<le> u"
          using allow_iff by blast
        then show ?thesis by blast
      next
        case False
        with C1 have x0: "0 \<le> L + g" by simp
        then have "timeToAct ?res \<le> t'"
          using reach[of t'] unfolding gval by simp
        with later have "timeToAct ?res \<le> u" by simp
        moreover from x0 C1 have "1 \<le> T" by (simp add: T_def min_def)
        ultimately show ?thesis using allow_iff h0 by simp
      qed
    qed
  qed
qed


lemma Delay_nonneg: "0 \<le> Delay t r"
  by (simp add: Delay_def InfDuration_def)

text \<open>
  C6, as amended. When the admission check of a request fails and nothing was written
  yet, the response has status 429, the JSON content type and the body
  \<^verbatim>\<open>{"error":"too many requests","message":"rate limit exceeded"}\<close>, and a
  \<^verbatim>\<open>Retry-After\<close> header. When the capacity of the bucket is below one, the header
  is the fixed text "60", and the bucket admits no request at any instant. Otherwise
  the header is the duration string of the delay, which is not negative and is the time
  from the reading of the clock to \<open>timeToAct\<close>, the instant of the reservation; and
  when the reservation is cancelled not later than \<open>timeToAct\<close>, the bucket that the
  handler leaves behind admits a request from then on at no instant before
  \<open>timeToAct\<close> and, when its rate is positive, at every instant from \<open>timeToAct\<close>
  on.
\<close>

theorem RateLimitMiddleware_denial:
  assumes lim: "getLimiter (getClientIP r) limiter = (b, limiter')"
    and denied: "\<not> fst (Allow (atAllow clock) b)"
    and unwritten: "statusCode w = None"
    and run: "RateLimitMiddleware String next clock r (limiter, w, logs) = (limiter'', w', logs')"
  shows "statusCode w' = Some 429
     \<and> body w' = body w @ [Raw rate_limit_body]
     \<and> Header_Get (header w') ''Content-Type'' = ''application/json''
     \<and> (let reservation = fst (Reserve (atReserve clock) b) in
          if capacity b < 1 then
            Header_Get (header w') ''Retry-After'' = ''60''
            \<and> (\<exists>kept. limiters limiter'' (getClientIP r) = Some kept
                  \<and> (\<forall>u. \<not> fst (Allow u kept)))
          else
            Header_Get (header w') ''Retry-After'' = String (Delay (atDelay clock) reservation)
            \<and> 0 \<le> Delay (atDelay clock) reservation
            \<and> Delay (atDelay clock) reservation = max 0 (timeToAct reservation - atDelay clock)
            \<and> (atCancel clock \<le> timeToAct reservation \<longrightarrow>
                 (\<exists>kept. limiters limiter'' (getClientIP r) = Some kept
                    \<and> (\<forall>u. atCancel clock \<le> u \<longrightarrow>
                          (fst (Allow u kept) \<longrightarrow> timeToAct reservation \<le> u)
                          \<and> (0 < refill b \<and> timeToAct reservation \<le> u
                               \<longrightarrow> fst (Allow u kept))))))"
proof -
  let ?res = "fst (Reserve (atReserve clock) b)"
  let ?kept = "Cancel (atCancel clock) ?res (snd (Reserve (atReserve clock) b))"
  let ?retry = "if \<not> OK ?res then ''60'' else String (Delay (atDelay clock) ?res)"
  from run have w': "w' = w\<lparr>header := (header w)(''Retry-After'' \<mapsto> [?retry],
                                ''Content-Type'' \<mapsto> [''application/json'']),
         statusCode := Some 429,
         body := body w @ [Raw rate_limit_body]\<rparr>"
    and l'': "limiter'' = put (getClientIP r) ?kept limiter'"
    unfolding RateLimitMiddleware_denied[OF lim denied] Let_def denied_writer[OF unwritten]
    by simp_all
  have a: "statusCode w' = Some 429" "body w' = body w @ [Raw rate_limit_body]"
    "Header_Get (header w') ''Content-Type'' = ''application/json''"
    by (simp_all add: w' Header_Get_def)
  have hdr: "Header_Get (header w') ''Retry-After'' = ?retry"
    by (simp add: w' Header_Get_def)
  have kept: "limiters limiter'' (getClientIP r) = Some ?kept"
    by (simp add: l'' put_simps)
  show ?thesis
  proof (cases "capacity b < 1")
    case True
    from Reserve_no_capacity[OF True] have "?kept = b" and "\<forall>u. \<not> fst (Allow u b)"
      by blast+
    with kept have "\<exists>kept. limiters limiter'' (getClientIP r) = Some kept
        \<and> (\<forall>u. \<not> fst (Allow u kept))"
      by simp
    moreover from True have "\<not> OK ?res" by (simp add: Reserve_OK)
    ultimately show ?thesis
      using a hdr True by (simp add: Let_def)
  next
    case False
    then have cap: "1 \<le> capacity b" by simp
    then have ok: "OK ?res" by (simp add: Reserve_OK)
    have order: "atReserve clock \<le> atCancel clock"
      by (simp add: atCancel_def atDelay_def)
    have "\<exists>kept. limiters limiter'' (getClientIP r) = Some kept
        \<and> (\<forall>u. atCancel clock \<le> u \<longrightarrow>
              (fst (Allow u kept) \<longrightarrow> timeToAct ?res \<le> u)
              \<and> (0 < refill b \<and> timeToAct ?res \<le> u \<longrightarrow> fst (Allow u kept)))"
      if intime: "atCancel clock \<le> timeToAct ?res"
      using kept Cancel_Reserve_next[OF cap order intime] by blast
    moreover have "Delay (atDelay clock) ?res = max 0 (timeToAct ?res - atDelay clock)"
      using ok by (simp add: Delay_def)
    ultimately show ?thesis
      using a hdr ok False Delay_nonneg[of "atDelay clock" ?res] by (simp add: Let_def)
  qed
qed

lemma used_up_reservation:
  "fst (Reserve 1010 \<lparr>capacity = 1, refill = 10, tokens = 0, last_refill = 0\<rparr>)
     = \<lparr>OK = True, timeToAct = 100000000\<rparr>"
  by code_simp

theorem RateLimitMiddleware_denial_witness:
  "statusCode (fst (snd (RateLimitMiddleware ns_String answer_ok (readings 1000) direct_request
                          (used_up, newResponseWriter, [])))) = Some 429
   \<and> Header_Get (header (fst (snd (RateLimitMiddleware ns_String answer_ok (readings 1000)
                          direct_request (used_up, newResponseWriter, [])))))
        ''Retry-After'' = ''99998980ns''
   \<and> (\<exists>kept. limiters (fst (RateLimitMiddleware ns_String answer_ok (readings 1000)
                 direct_request (used_up, newResponseWriter, []))) ''192.0.2.1:4711'' = Some kept
         \<and> \<not> fst (Allow 99999999 kept) \<and> fst (Allow 100000000 kept))"
proof -
  let ?b = "\<lparr>capacity = 1, refill = 10, tokens = 0, last_refill = 0\<rparr>"
  let ?run = "RateLimitMiddleware ns_String answer_ok (readings 1000) direct_request
                (used_up, newResponseWriter, [])"
  have ip: "getClientIP direct_request = ''192.0.2.1:4711''"
    by (simp add: getClientIP_def Header_Get_def direct_request_def)
  have lim: "getLimiter (getClientIP direct_request) used_up = (?b, used_up)"
    unfolding ip by (simp add: getLimiter_def used_up_def)
  have denied: "\<not> fst (Allow (atAllow (readings 1000)) ?b)"
    by (simp add: Allow_fst available_def tokensFromDuration_def readings_def Second_def)
  have unwritten: "statusCode newResponseWriter = None"
    by (simp add: newResponseWriter_def)
  have run: "?run = (fst ?run, fst (snd ?run), snd (snd ?run))"
    by simp
  have clk: "atReserve (readings 1000) = 1010" "atDelay (readings 1000) = 1020"
    "atCancel (readings 1000) = 1030"
    by (simp_all add: readings_def atReserve_def atDelay_def atCancel_def)
  have rendered: "ns_String 99998980 = ''99998980ns''"
    by (simp add: ns_String_def)
  from RateLimitMiddleware_denial[OF lim denied unwritten run]
  have all: "statusCode (fst (snd ?run)) = Some 429
     \<and> Header_Get (header (fst (snd ?run))) ''Retry-After'' = ''99998980ns''
     \<and> (\<exists>kept. limiters (fst ?run) ''192.0.2.1:4711'' = Some kept
          \<and> (\<forall>u. 1030 \<le> u \<longrightarrow>
                (fst (Allow u kept) \<longrightarrow> 100000000 \<le> u)
                \<and> (100000000 \<le> u \<longrightarrow> fst (Allow u kept))))"
    unfolding clk used_up_reservation Let_def ip
    by (simp add: Delay_def rendered)
  then obtain kept where k: "limiters (fst ?run) ''192.0.2.1:4711'' = Some kept"
    and nxt: "\<forall>u. 1030 \<le> u \<longrightarrow>
                (fst (Allow u kept) \<longrightarrow> 100000000 \<le> u)
                \<and> (100000000 \<le> u \<longrightarrow> fst (Allow u kept))"
    by blast
  from nxt[rule_format, of 99999999] nxt[rule_format, of 100000000]
  have "\<not> fst (Allow 99999999 kept) \<and> fst (Allow 100000000 kept)"
    by simp
  with all k show ?thesis by blast
qed

text \<open>
  With a capacity of 0 the header says "60", and a check sixty seconds after the
  denial is denied as well: the value is not the time until a token is there. With a
  capacity of 1 and a rate of 10, when the check is denied 20 nanoseconds before the
  next token is there and the reservation is cancelled 10 nanoseconds after its time,
  the header says that the token is there at once, but the reservation has kept it: a
  check 50 milliseconds later is denied. And with a capacity of 1 and a rate of 0, the
  second request is denied with the largest duration (less the 10 nanoseconds between
  two readings of the clock) in the header, and a check at the instant of the
  reservation is denied as well.
\<close>

theorem RateLimitMiddleware_denial_counterexample:
  "Header_Get (header (fst (snd (RateLimitMiddleware ns_String answer_ok (readings 1000)
                          direct_request (NewRateLimiter 10 0, newResponseWriter, [])))))
        ''Retry-After'' = ''60''
   \<and> allows ''192.0.2.1:4711'' [Check (1030 + 60 * Second)]
        (fst (RateLimitMiddleware ns_String answer_ok (readings 1000) direct_request
               (NewRateLimiter 10 0, newResponseWriter, []))) = [False]
   \<and> Header_Get (header (fst (snd (RateLimitMiddleware ns_String answer_ok
                          (readings 99999980) direct_request
                          (used_up, newResponseWriter, [])))))
        ''Retry-After'' = ''0ns''
   \<and> allows ''192.0.2.1:4711'' [Check 150000000]
        (fst (RateLimitMiddleware ns_String answer_ok (readings 99999980) direct_request
               (used_up, newResponseWriter, []))) = [False]
   \<and> Header_Get (header (fst (snd (RateLimitMiddleware ns_String answer_ok (readings 1000)
                          direct_request (once_admitted, newResponseWriter, [])))))
        ''Retry-After'' = ''9223372036854775797ns''
   \<and> allows ''192.0.2.1:4711'' [Check (1010 + InfDuration)]
        (fst (RateLimitMiddleware ns_String answer_ok (readings 1000) direct_request
               (once_admitted, newResponseWriter, []))) = [False]"
  by code_simp

section \<open>Error responses of the auth endpoints (C8)\<close>

text \<open>
  The helper of the handlers puts the text of the internal error into the response:
  the message of the body is the same text as the error field of the log record.
\<close>

lemma respondWithError_message:
  "respondWithError code message err (w, logs) = (w', logs') \<Longrightarrow>
     body w' = body w @ [EncodedError \<lparr>ErrorField = message, Message = Error err\<rparr>]
     \<and> logs' = logs @ [\<lparr>lvl = ErrorLevel, msg = message,
                         logFields = [(''error'', Error err), (''status_code'', decimal code)]\<rparr>]"
  by (auto simp: respondWithError_def respondWithJSON_def Write_def WriteHeader_def
      SetHeader_def Let_def)

text \<open>The helper of the middleware sends the reason and nothing else.\<close>

lemma middleware_respondWithError_body:
  \<open>body (middleware_respondWithError code message newResponseWriter)
     = [Raw (''{"error":"'' @ message @ ''"}'')]\<close>
  by (simp add: middleware_respondWithError_def newResponseWriter_def Write_def WriteHeader_def
      SetHeader_def Let_def)

text \<open>
  C8 does not hold of the code. A registration while the database is unreachable is
  answered with status 500 and a body whose message is the chain of internal errors
  down to the driver's own text, identical to what the log record holds.
\<close>

theorem Register_exposes_driver_error:
  "statusCode (fst (Register ''secret'' database_down (Inr new_user) None fresh)) = Some 500
   \<and> body (fst (Register ''secret'' database_down (Inr new_user) None fresh)) =
       [EncodedError
          \<lparr>ErrorField = ''failed to register user'',
           Message = ''failed to check existing user: failed to get user by email: dial tcp 10.0.0.5:5432: connect: connection refused''\<rparr>]
   \<and> map logFields (snd (Register ''secret'' database_down (Inr new_user) None fresh)) =
       [[(''error'', ''failed to check existing user: failed to get user by email: dial tcp 10.0.0.5:5432: connect: connection refused''),
         (''status_code'', ''500'')]]"
  by code_simp

section \<open>Goroutines sharing the limiter (C9)\<close>

lemma within_burst_Allow:
  assumes inv: "within_burst r B t0 tcur j b"
    and after: "t0 \<le> t" and order: "tcur \<le> t"
    and period: "(t - t0) * r < Second"
  shows "fst (Allow t b) = (int j < B)
     \<and> within_burst r B t0 t (if int j < B then Suc j else j) (snd (Allow t b))"
proof (cases "j = 0")
  case True
  with inv have b: "b = NewLimiter r B" by (simp add: within_burst_def)
  have av: "available b t = of_int B" unfolding b by (rule available_new)
  have gain: "0 \<le> tokensFromDuration r (t - t0)"
    using after by (intro tokensFromDuration_nonneg) simp
  show ?thesis
  proof (cases "0 < B")
    case pos: True
    then have "(1 :: rat) \<le> of_int B" by simp
    with av pos True gain after show ?thesis
      by (simp add: Allow_fst Allow_snd within_burst_def b NewLimiter_def)
  next
    case False
    with av have "\<not> 1 \<le> available b t" by simp
    with False True b show ?thesis
      by (simp add: Allow_fst Allow_snd within_burst_def)
  qed
next
  case False
  with inv have j: "1 \<le> j" "int j \<le> B" and shape: "capacity b = B" "refill b = r"
    and lo0: "of_int (B - int j) \<le> tokens b"
    and hi0: "tokens b \<le> of_int (B - int j) + tokensFromDuration r (last_refill b - t0)"
    and seen: "t0 \<le> last_refill b" "last_refill b \<le> tcur"
    by (auto simp: within_burst_def)
  from order seen have el: "max 0 (t - last_refill b) = t - last_refill b" by simp
  let ?filled = "tokens b + tokensFromDuration r (t - last_refill b)"
  have av: "available b t = min (of_int B) ?filled"
    using el shape by (simp add: available_def Let_def)
  have gain: "0 \<le> tokensFromDuration r (t - last_refill b)"
    using order seen by (intro tokensFromDuration_nonneg) simp
  have lo: "of_int (B - int j) \<le> available b t"
    unfolding av using lo0 gain by simp
  have "?filled \<le> of_int (B - int j) + (tokensFromDuration r (last_refill b - t0)
            + tokensFromDuration r (t - last_refill b))"
    using hi0 by simp
  also have "\<dots> = of_int (B - int j) + tokensFromDuration r (t - t0)"
    by (simp add: tokensFromDuration_add)
  finally have hi: "available b t \<le> of_int (B - int j) + tokensFromDuration r (t - t0)"
    unfolding av by simp
  have lt1: "tokensFromDuration r (t - t0) < 1"
    using period by (rule tokensFromDuration_less_1)
  show ?thesis
  proof (cases "int j < B")
    case True
    then have "(1 :: rat) \<le> of_int (B - int j)" by simp
    with lo have yes: "1 \<le> available b t" by linarith
    have "of_int (B - int (Suc j)) \<le> available b t - 1"
      using lo by simp
    moreover have "available b t - 1 \<le> of_int (B - int (Suc j)) + tokensFromDuration r (t - t0)"
      using hi by simp
    ultimately show ?thesis
      using True yes shape after by (simp add: Allow_fst Allow_snd within_burst_def)
  next
    case False
    with j have full: "int j = B" by simp
    with hi lt1 have no: "\<not> 1 \<le> available b t" by simp
    have "within_burst r B t0 t j b"
      using j shape lo0 hi0 seen order by (simp add: within_burst_def)
    with False no show ?thesis by (simp add: Allow_fst Allow_snd)
  qed
qed

lemma count_update:
  "i < length xs \<Longrightarrow> \<not> P (xs ! i) \<Longrightarrow>
     length (filter P (xs[i := y])) = length (filter P xs) + (if P y then 1 else 0)"
proof (induction xs arbitrary: i)
  case Nil
  then show ?case by simp
next
  case (Cons x xs)
  then show ?case by (cases i) auto
qed

lemma list_all_update:
  "list_all P xs \<Longrightarrow> P y \<Longrightarrow> list_all P (xs[i := y])"
  by (induction xs arbitrary: i) (auto split: nat.splits)

lemma list_all_weaken:
  "list_all P xs \<Longrightarrow> (\<And>x. P x \<Longrightarrow> Q x) \<Longrightarrow> list_all Q xs"
  by (induction xs) auto

lemma idle_counts:
  "list_all (\<lambda>g. g = Idle) xs \<Longrightarrow> filter finished xs = [] \<and> filter was_admitted xs = []"
  by (induction xs) auto

lemma consistent_start: "consistent ip r B t0 t0 (start m r B)"
proof -
  have idle: "list_all (\<lambda>g. g = Idle) (replicate m Idle)"
    by (simp add: list_all_iff)
  from idle_counts[OF idle] idle show ?thesis
    by (simp add: consistent_def start_def completed_def admitted_count_def)
qed

lemma consistent_conf:
  "consistent ip r B t0 tcur s \<Longrightarrow>
     sh_rps s = r \<and> sh_burst s = B \<and> admitted_count s = min (completed s) (nat B)"
  unfolding consistent_def by blast

lemma consistent_None:
  assumes "consistent ip r B t0 tcur s" and "table s ip = None"
  shows "list_all (\<lambda>g. g = Idle) (routines s)"
proof -
  from assms(1) have "case table s ip of
      None \<Rightarrow> list_all (\<lambda>g. g = Idle) (routines s)
    | Some a \<Rightarrow> a < length (store s)
        \<and> within_burst r B t0 tcur (admitted_count s) (store s ! a)
        \<and> list_all (\<lambda>g. case g of Holding a' \<Rightarrow> a' = a | _ \<Rightarrow> True) (routines s)"
    unfolding consistent_def by blast
  with assms(2) show ?thesis by simp
qed

lemma consistent_Some:
  assumes "consistent ip r B t0 tcur s" and "table s ip = Some a"
  shows "a < length (store s)
     \<and> within_burst r B t0 tcur (admitted_count s) (store s ! a)
     \<and> list_all (\<lambda>g. case g of Holding a' \<Rightarrow> a' = a | _ \<Rightarrow> True) (routines s)"
proof -
  from assms(1) have "case table s ip of
      None \<Rightarrow> list_all (\<lambda>g. g = Idle) (routines s)
    | Some a \<Rightarrow> a < length (store s)
        \<and> within_burst r B t0 tcur (admitted_count s) (store s ! a)
        \<and> list_all (\<lambda>g. case g of Holding a' \<Rightarrow> a' = a | _ \<Rightarrow> True) (routines s)"
    unfolding consistent_def by blast
  with assms(2) show ?thesis by simp
qed

lemma consistentI:
  assumes "sh_rps s = r" and "sh_burst s = B"
    and "admitted_count s = min (completed s) (nat B)"
    and "table s ip = Some a" and "a < length (store s)"
    and "within_burst r B t0 tcur (admitted_count s) (store s ! a)"
    and "list_all (\<lambda>g. case g of Holding a' \<Rightarrow> a' = a | _ \<Rightarrow> True) (routines s)"
  shows "consistent ip r B t0 tcur s"
  unfolding consistent_def using assms(1,2,3,5,6,7) by (simp only: assms(4) option.case)

text \<open>Taking the bucket's address keeps the state consistent.\<close>

lemma GetLimiter_consistent:
  assumes inv: "consistent ip r B t0 tcur s" and st: "step ip (GetLimiter i) s = Some s'"
  shows "consistent ip r B t0 tcur s' \<and> length (routines s') = length (routines s)"
proof -
  from st have i: "i < length (routines s)" and idle: "routines s ! i = Idle"
    by (auto split: if_splits)
  have counts: "completed (s\<lparr>routines := (routines s)[i := Holding a]\<rparr>) = completed s"
    "admitted_count (s\<lparr>routines := (routines s)[i := Holding a]\<rparr>) = admitted_count s" for a
    using i idle by (simp_all add: completed_def admitted_count_def count_update)
  show ?thesis
  proof (cases "table s ip")
    case None
    let ?a = "length (store s)"
    from st i idle None have s': "s' = s\<lparr>table := (table s)(ip \<mapsto> ?a),
        store := store s @ [NewLimiter (sh_rps s) (sh_burst s)],
        routines := (routines s)[i := Holding ?a]\<rparr>"
      by (simp add: Let_def)
    from consistent_None[OF inv None] have all_idle: "list_all (\<lambda>g. g = Idle) (routines s)" .
    from consistent_conf[OF inv] have conf: "sh_rps s = r" "sh_burst s = B"
      and cnt: "admitted_count s = min (completed s) (nat B)"
      by blast+
    from idle_counts[OF all_idle] have zero: "admitted_count s = 0"
      by (simp add: admitted_count_def)
    have holds: "list_all (\<lambda>g. case g of Holding a' \<Rightarrow> a' = ?a | _ \<Rightarrow> True)
        ((routines s)[i := Holding ?a])"
      by (rule list_all_update) (rule list_all_weaken[OF all_idle], simp_all)
    have c1: "completed s' = completed s" "admitted_count s' = admitted_count s"
      using counts[of ?a] by (simp_all add: s' completed_def admitted_count_def)
    have "consistent ip r B t0 tcur s'"
    proof (rule consistentI[where a = ?a])
      show "admitted_count s' = min (completed s') (nat B)" using cnt c1 by simp
      show "within_burst r B t0 tcur (admitted_count s') (store s' ! ?a)"
        using zero c1 conf by (simp add: s' within_burst_def)
      show "list_all (\<lambda>g. case g of Holding a' \<Rightarrow> a' = ?a | _ \<Rightarrow> True) (routines s')"
        using holds by (simp add: s')
    qed (use conf in \<open>simp_all add: s'\<close>)
    then show ?thesis by (simp add: s')
  next
    case (Some a)
    from st i idle Some have s': "s' = s\<lparr>routines := (routines s)[i := Holding a]\<rparr>"
      by simp
    from consistent_Some[OF inv Some] have a: "a < length (store s)"
      and wb: "within_burst r B t0 tcur (admitted_count s) (store s ! a)"
      and holds: "list_all (\<lambda>g. case g of Holding a' \<Rightarrow> a' = a | _ \<Rightarrow> True) (routines s)"
      by blast+
    from consistent_conf[OF inv] have conf: "sh_rps s = r" "sh_burst s = B"
      and cnt: "admitted_count s = min (completed s) (nat B)"
      by blast+
    have holds': "list_all (\<lambda>g. case g of Holding a' \<Rightarrow> a' = a | _ \<Rightarrow> True)
        ((routines s)[i := Holding a])"
      by (rule list_all_update[OF holds]) simp
    have c1: "completed s' = completed s" "admitted_count s' = admitted_count s"
      using counts[of a] by (simp_all add: s')
    have "consistent ip r B t0 tcur s'"
    proof (rule consistentI[where a = a])
      show "admitted_count s' = min (completed s') (nat B)" using cnt c1 by simp
      show "within_burst r B t0 tcur (admitted_count s') (store s' ! a)"
        using wb c1 by (simp add: s')
      show "list_all (\<lambda>g. case g of Holding a' \<Rightarrow> a' = a | _ \<Rightarrow> True) (routines s')"
        using holds' by (simp add: s')
    qed (use conf Some a in \<open>simp_all add: s'\<close>)
    then show ?thesis by (simp add: s')
  qed
qed

text \<open>Asking the bucket keeps the state consistent, and counts the call.\<close>

lemma AllowAt_consistent:
  assumes inv: "consistent ip r B t0 tcur s" and st: "step ip (AllowAt i t) s = Some s'"
    and after: "t0 \<le> t" and order: "tcur \<le> t"
    and period: "(t - t0) * r < Second"
  shows "consistent ip r B t0 t s' \<and> length (routines s') = length (routines s)"
proof -
  from st obtain a' where i: "i < length (routines s)" and hold: "routines s ! i = Holding a'"
    and a': "a' < length (store s)"
    by (auto split: if_splits goroutine.splits)
  have "table s ip \<noteq> None"
  proof
    assume "table s ip = None"
    from consistent_None[OF inv this] i have "routines s ! i = Idle"
      by (simp add: list_all_length)
    with hold show False by simp
  qed
  then obtain a where tab: "table s ip = Some a" by blast
  from consistent_Some[OF inv tab] have a: "a < length (store s)"
    and wb: "within_burst r B t0 tcur (admitted_count s) (store s ! a)"
    and holds: "list_all (\<lambda>g. case g of Holding a' \<Rightarrow> a' = a | _ \<Rightarrow> True) (routines s)"
    by blast+
  from consistent_conf[OF inv] have conf: "sh_rps s = r" "sh_burst s = B"
    and cnt: "admitted_count s = min (completed s) (nat B)"
    by blast+
  from holds i hold have same: "a' = a"
    by (auto simp: list_all_length split: goroutine.splits)
  let ?ok = "fst (Allow t (store s ! a))" and ?b = "snd (Allow t (store s ! a))"
  from st i hold a same have s': "s' = s\<lparr>store := (store s)[a := ?b],
      routines := (routines s)[i := Finished ?ok]\<rparr>"
    by (simp add: Let_def split: prod.splits)
  from within_burst_Allow[OF wb after order period]
  have ok: "?ok = (int (admitted_count s) < B)"
    and wb': "within_burst r B t0 t
        (if int (admitted_count s) < B then Suc (admitted_count s) else admitted_count s) ?b"
    by simp_all
  have c: "completed s' = completed s + 1"
    using i hold by (simp add: s' completed_def count_update)
  have ad: "admitted_count s' = admitted_count s + (if ?ok then 1 else 0)"
    using i hold by (simp add: s' admitted_count_def count_update)
  have cnt': "admitted_count s' = min (completed s') (nat B)"
    using cnt unfolding c ad ok by (auto simp: min_def)
  have holds': "list_all (\<lambda>g. case g of Holding a' \<Rightarrow> a' = a | _ \<Rightarrow> True)
      ((routines s)[i := Finished ?ok])"
    by (rule list_all_update[OF holds]) simp
  have wb'': "within_burst r B t0 t (admitted_count s') ((store s)[a := ?b] ! a)"
    using wb' a unfolding ad ok by (simp split: if_splits)
  have "consistent ip r B t0 t s'"
  proof (rule consistentI[where a = a])
    show "admitted_count s' = min (completed s') (nat B)" by (rule cnt')
    show "within_burst r B t0 t (admitted_count s') (store s' ! a)"
      using wb'' by (simp add: s')
    show "list_all (\<lambda>g. case g of Holding a' \<Rightarrow> a' = a | _ \<Rightarrow> True) (routines s')"
      using holds' by (simp add: s')
  qed (use conf tab a in \<open>simp_all add: s'\<close>)
  then show ?thesis by (simp add: s')
qed

text \<open>A schedule without cleanup keeps the state consistent.\<close>

lemma run_consistent:
  assumes "consistent ip r B t0 tcur s" and "run ip sched s = Some s'"
    and "Cleanup \<notin> set sched" and "t0 \<le> tcur"
    and "sorted (tcur # instants sched)"
    and "\<forall>t\<in>set (instants sched). (t - t0) * r < Second"
  shows "(\<exists>tc. consistent ip r B t0 tc s') \<and> length (routines s') = length (routines s)"
  using assms
proof (induction sched arbitrary: s tcur)
  case Nil
  then show ?case by auto
next
  case (Cons a as)
  from Cons.prems(2) obtain s1 where s1: "step ip a s = Some s1" and rest: "run ip as s1 = Some s'"
    by (auto split: option.splits)
  from Cons.prems(3) have nc: "Cleanup \<notin> set as" and a: "a \<noteq> Cleanup" by auto
  show ?case
  proof (cases a)
    case (GetLimiter i)
    from GetLimiter_consistent[OF Cons.prems(1) s1[unfolded GetLimiter]]
    have c1: "consistent ip r B t0 tcur s1" and l1: "length (routines s1) = length (routines s)"
      by blast+
    from Cons.prems(5,6) GetLimiter have "sorted (tcur # instants as)"
      and "\<forall>t\<in>set (instants as). (t - t0) * r < Second" by simp_all
    from Cons.IH[OF c1 rest nc Cons.prems(4) this] l1 show ?thesis by simp
  next
    case (AllowAt i t)
    from Cons.prems(5,6) AllowAt have t: "tcur \<le> t" and srt: "sorted (t # instants as)"
      and win: "(t - t0) * r < Second"
      and wins: "\<forall>u\<in>set (instants as). (u - t0) * r < Second" by simp_all
    from t Cons.prems(4) have t0: "t0 \<le> t" by simp
    from AllowAt_consistent[OF Cons.prems(1) s1[unfolded AllowAt] t0 t win]
    have c1: "consistent ip r B t0 t s1" and l1: "length (routines s1) = length (routines s)"
      by blast+
    from Cons.IH[OF c1 rest nc t0 srt wins] l1 show ?thesis by simp
  next
    case Cleanup
    with a show ?thesis by simp
  qed
qed

lemma all_finished: "list_all finished xs \<Longrightarrow> length (filter finished xs) = length xs"
  by (induction xs) auto

text \<open>
  C9, as amended. Let \<open>m\<close> goroutines serve requests of one identity from a new
  limiter of capacity \<open>B\<close>, their lookups and bucket calls interleaved in any order,
  and let three things hold: the cleanup does not replace the map meanwhile; the calls
  reach the bucket in the order of the instants they have read from the clock; and
  these instants lie within one refill period of the first. Then in every state that
  is reached, of the calls completed so far exactly the first \<open>B\<close> were admitted (so
  never more than \<open>B\<close>), and when all goroutines are through, \<open>min m B\<close> were
  admitted. Every beginning of a schedule is a schedule, so this holds at every point
  of the run.
\<close>

theorem goroutines_admit_burst:
  assumes sched: "run ip sched (start m r B) = Some s"
    and quiet: "Cleanup \<notin> set sched"
    and order: "sorted (instants sched)"
    and period: "\<forall>t\<in>set (instants sched). (t - hd (instants sched)) * r < Second"
  shows "admitted_count s = min (completed s) (nat B)
     \<and> admitted_count s \<le> nat B
     \<and> (list_all finished (routines s) \<longrightarrow> admitted_count s = min m (nat B))"
proof -
  define t0 where "t0 = (if instants sched = [] then 0 else hd (instants sched))"
  have srt: "sorted (t0 # instants sched)"
    using order by (cases "instants sched") (simp_all add: t0_def)
  have win: "\<forall>t\<in>set (instants sched). (t - t0) * r < Second"
    using period by (cases "instants sched") (simp_all add: t0_def)
  from run_consistent[OF consistent_start sched quiet order_refl srt win]
  obtain tc where c: "consistent ip r B t0 tc s"
    and len: "length (routines s) = length (routines (start m r B))"
    by blast
  from consistent_conf[OF c] have cnt: "admitted_count s = min (completed s) (nat B)"
    by blast
  have "admitted_count s = min m (nat B)" if "list_all finished (routines s)"
  proof -
    from all_finished[OF that] len have "completed s = m"
      by (simp add: completed_def start_def)
    with cnt show ?thesis by simp
  qed
  with cnt show ?thesis by simp
qed

lemma interleaved_runs: "run ''192.0.2.1:4711'' interleaved (start 3 10 2) \<noteq> None"
  by code_simp

lemma interleaved_finished:
  "list_all finished (routines (the (run ''192.0.2.1:4711'' interleaved (start 3 10 2))))"
  by code_simp

theorem goroutines_admit_burst_witness:
  "admitted_count (the (run ''192.0.2.1:4711'' interleaved (start 3 10 2))) = 2"
proof -
  let ?s = "the (run ''192.0.2.1:4711'' interleaved (start 3 10 2))"
  have sched: "run ''192.0.2.1:4711'' interleaved (start 3 10 2) = Some ?s"
    using interleaved_runs by simp
  have quiet: "Cleanup \<notin> set interleaved"
    by (simp add: interleaved_def)
  have ins: "instants interleaved = [5, 5, 6]"
    by (simp add: interleaved_def)
  have order: "sorted (instants interleaved)"
    unfolding ins by simp
  have period: "\<forall>t\<in>set (instants interleaved). (t - hd (instants interleaved)) * 10 < Second"
    unfolding ins by (simp add: Second_def)
  from goroutines_admit_burst[OF sched quiet order period] interleaved_finished
  show ?thesis by simp
qed

text \<open>
  With a cleanup between the two lookups, the goroutines hold different buckets, and
  both are admitted although the capacity is 1. And with no cleanup, when calls reach
  the bucket after calls that have read the clock later, the time between the readings
  is refilled once for every such pair: all five calls are admitted although the
  capacity is 4 and no instant is more than 90 milliseconds (less than the refill
  period of 100 milliseconds) after the first.
\<close>

theorem goroutines_counterexample:
  "map_option admitted_count (run ''192.0.2.1:4711'' with_cleanup (start 2 10 1)) = Some 2
   \<and> map_option admitted_count (run ''192.0.2.1:4711'' overtaken (start 5 10 4)) = Some 5"
  by code_simp

end
